(* ===== verification/Prelude.thy ===== *)
theory Prelude
  imports Complex_Main "HOL-Library.Word"
begin

text \<open>
  Shared vocabulary of the DS18B20 example development: the machine types of the
  C program (\<open>uint8_t\<close> bytes, FreeRTOS \<open>TickType_t\<close> ticks, 64-bit 1-Wire ROM
  codes stored as eight bytes, least significant byte first), the collections of
  rules the component theories use, and generic lemmas on words and lists that
  several components share.
\<close>

unbundle bit_operations_syntax

type_synonym byte = "8 word"
type_synonym tick = "32 word"

text \<open>
  \<open>OneWireBus_ROMCode\<close> is a union of \<open>uint8_t bytes[8]\<close> with the fields
  \<open>family[1]\<close>, \<open>serial_number[6]\<close> and \<open>crc[1]\<close>; the model keeps the byte array.
\<close>

type_synonym rom = "byte list"

text \<open>
  What the program does to the outside world, in order: 1-Wire bus operations (reset
  pulse, a byte written, a number of bytes read), FreeRTOS delays (\<open>vTaskDelay\<close>, in
  ticks) and console output (the fixed lines \<open>PrintText\<close>, one line per device found, the number of devices found,
  whether the known device is present, the \<open>sample N\<close> header and one line per device
  and sample). ROM codes are printed as the string \<open>owb_string_from_rom_code\<close> makes.
\<close>

datatype event =
    BusReset
  | BusWrite byte
  | BusRead nat
  | TaskDelay tick
  | PrintText string
  | PrintRom nat string
  | PrintFound nat
  | PrintPresent string bool
  | PrintSample nat
  | PrintReading nat real nat

definition bus_event :: "event \<Rightarrow> bool" where
  "bus_event e \<longleftrightarrow> (case e of BusReset \<Rightarrow> True | BusWrite _ \<Rightarrow> True | BusRead _ \<Rightarrow> True
                     | _ \<Rightarrow> False)"

named_theorems rom_bit_simps "bit-level rules of ROM codes"
named_theorems crc_simps "rules that evaluate the CRC-8 of the 1-Wire bus"

subsection \<open>Words\<close>

lemma word_xor_eq_0_iff [simp]:
  "((a::'a::len word) XOR b = 0) \<longleftrightarrow> a = b"
  by (auto simp: bit_eq_iff bit_xor_iff)

lemma word_xor_cancel_left: "(c XOR a = c XOR b) \<longleftrightarrow> (a = b)" for a b c :: "'a::len word"
  by (metis bit.xor_left_self)

lemma word_xor_cancel_right: "(a XOR c = b XOR c) \<longleftrightarrow> (a = b)" for a b c :: "'a::len word"
  by (metis bit.xor_left_self xor.commute)

lemma byte_bit_high [simp]:
  "8 \<le> n \<Longrightarrow> \<not> bit (c::byte) n"
  using bit_imp_le_length [of c n] by auto

lemma byte_eqI_bits:
  assumes "\<And>k. k < 8 \<Longrightarrow> bit (a::byte) k = bit b k"
  shows "a = b"
proof (rule bit_eqI)
  fix n
  show "bit a n = bit b n" by (cases "n < 8") (simp_all add: assms)
qed

lemma bit_mask_byte:
  "k < 8 \<Longrightarrow> bit (push_bit k (1::byte)) j \<longleftrightarrow> j = k"
  by (auto simp: bit_exp_iff)

text \<open>Tick arithmetic: a reading of the tick counter is the time since boot modulo \<open>2^32\<close>.\<close>

lemma tick_of_nat_diff [simp]:
  "(word_of_nat (c + k) :: tick) - word_of_nat c = word_of_nat k"
  by simp

lemma unat_tick_of_nat:
  "k < 2 ^ 32 \<Longrightarrow> unat (word_of_nat k :: tick) = k"
  by (simp add: unat_of_nat)

lemma tick_of_nat_less_iff:
  "k < 2 ^ 32 \<Longrightarrow> m < 2 ^ 32 \<Longrightarrow> (word_of_nat k :: tick) < word_of_nat m \<longleftrightarrow> k < m"
  by (simp add: word_less_nat_alt unat_tick_of_nat)

subsection \<open>Lists\<close>

lemma list_all_upt_iff:
  "list_all P [a..<b] \<longleftrightarrow> (\<forall>j. a \<le> j \<and> j < b \<longrightarrow> P j)"
  by (auto simp: list_all_iff)

lemma list_ex_upt_iff:
  "list_ex P [a..<b] \<longleftrightarrow> (\<exists>j. a \<le> j \<and> j < b \<and> P j)"
  by (auto simp: list_ex_iff)

lemma map_upt_append_nth:
  "map (\<lambda>i. f i ((xs @ ys) ! i)) [0..<length xs] = map (\<lambda>i. f i (xs ! i)) [0..<length xs]"
  by (rule map_cong) (auto simp: nth_append)

lemma sorted_le_last:
  "sorted xs \<Longrightarrow> x \<in> set xs \<Longrightarrow> x \<le> last xs"
proof (induction xs)
  case Nil
  then show ?case by simp
next
  case (Cons y ys)
  show ?case
  proof (cases "ys = []")
    case True
    with Cons.prems show ?thesis by simp
  next
    case False
    then have "last ys \<in> set ys" by simp
    with Cons False show ?thesis by auto
  qed
qed

lemma last_filter_upt:
  assumes "filter P [a..<b] \<noteq> []"
  shows "P (last (filter P [a..<b])) \<and> a \<le> last (filter P [a..<b]) \<and>
         last (filter P [a..<b]) < b \<and> (\<forall>q. P q \<and> a \<le> q \<and> q < b \<longrightarrow> q \<le> last (filter P [a..<b]))"
proof -
  have m: "last (filter P [a..<b]) \<in> set (filter P [a..<b])" using assms by (rule last_in_set)
  then have "P (last (filter P [a..<b])) \<and> a \<le> last (filter P [a..<b]) \<and>
      last (filter P [a..<b]) < b" by (simp only: set_filter set_upt) simp
  moreover have "\<forall>q. P q \<and> a \<le> q \<and> q < b \<longrightarrow> q \<le> last (filter P [a..<b])"
  proof -
    have "sorted (filter P [a..<b])" by (rule sorted_wrt_filter) simp
    then show ?thesis by (auto intro: sorted_le_last)
  qed
  ultimately show ?thesis by blast
qed

end
