(* ===== verification/CRC8.thy ===== *)
theory CRC8
  imports Prelude
begin

text \<open>
  The Dallas/Maxim CRC-8 of the 1-Wire bus (polynomial \<open>x^8 + x^5 + x^4 + 1\<close>,
  reflected constant \<open>0x8C\<close>, seed 0), as the owb library exposes it:
  \<open>owb_crc8_byte(crc, data)\<close> and \<open>owb_crc8_bytes(crc, data, len)\<close>. The library is
  not part of this repository; the definitions follow the specification's polynomial.
  The theory proves the two facts every CRC check of the program relies on: appending
  the CRC of a message makes the CRC of the whole zero, and the CRC of a message
  followed by one byte is zero exactly when that byte is the message's CRC.
\<close>

unbundle bit_operations_syntax

text \<open>One shift of the CRC register: the low bit leaves, the polynomial is added back.\<close>

definition crc8_round :: "byte \<Rightarrow> byte" where
  "crc8_round c = (if bit c 0 then drop_bit 1 c XOR 0x8C else drop_bit 1 c)"

text \<open>Eight shifts, one per bit of the data byte.\<close>

definition owb_crc8_byte :: "byte \<Rightarrow> byte \<Rightarrow> byte" where
  "owb_crc8_byte crc data =
     crc8_round (crc8_round (crc8_round (crc8_round
       (crc8_round (crc8_round (crc8_round (crc8_round (crc XOR data))))))))"

definition owb_crc8_bytes :: "byte \<Rightarrow> byte list \<Rightarrow> byte" where
  "owb_crc8_bytes crc data = foldl owb_crc8_byte crc data"

declare owb_crc8_byte_def [crc_simps] owb_crc8_bytes_def [crc_simps] crc8_round_def [crc_simps]

subsection \<open>The register shift loses no information about zero\<close>

lemma crc8_round_eq_0_iff [simp]: "crc8_round c = 0 \<longleftrightarrow> c = 0"
proof
  assume h: "crc8_round c = 0"
  show "c = 0"
  proof (cases "bit c 0")
    case True
    have "bit (drop_bit 1 c XOR 0x8C) 7"
      by (simp add: bit_xor_iff bit_drop_bit_eq)
    with True h show ?thesis by (simp add: crc8_round_def)
  next
    case False
    with h have d: "drop_bit 1 c = 0" by (simp add: crc8_round_def)
    show ?thesis
    proof (rule bit_eqI)
      fix n
      show "bit c n = bit 0 n"
      proof (cases n)
        case 0
        with False show ?thesis by simp
      next
        case (Suc m)
        have "bit (drop_bit 1 c) m = bit c n" by (simp add: bit_drop_bit_eq Suc)
        with d show ?thesis by simp
      qed
    qed
  qed
qed (simp add: crc8_round_def)

lemma owb_crc8_byte_eq_0_iff: "owb_crc8_byte crc d = 0 \<longleftrightarrow> d = crc"
  by (auto simp: owb_crc8_byte_def)

lemma owb_crc8_byte_self [simp]: "owb_crc8_byte crc crc = 0"
  by (simp add: owb_crc8_byte_eq_0_iff)

subsection \<open>Block CRC\<close>

lemma owb_crc8_bytes_Nil [simp]: "owb_crc8_bytes crc [] = crc"
  by (simp add: owb_crc8_bytes_def)

lemma owb_crc8_bytes_append:
  "owb_crc8_bytes crc (xs @ ys) = owb_crc8_bytes (owb_crc8_bytes crc xs) ys"
  by (simp add: owb_crc8_bytes_def)

lemma owb_crc8_bytes_snoc:
  "owb_crc8_bytes crc (xs @ [x]) = owb_crc8_byte (owb_crc8_bytes crc xs) x"
  by (simp add: owb_crc8_bytes_def)

lemma owb_crc8_bytes_Cons: "owb_crc8_bytes c (x # xs) = owb_crc8_bytes (owb_crc8_byte c x) xs"
  by (simp add: owb_crc8_bytes_def)

subsection \<open>The register update is linear and injective\<close>

lemma crc8_round_xor: "crc8_round (a XOR b) = crc8_round a XOR crc8_round b"
  by (rule bit_eqI) (auto simp: crc8_round_def bit_xor_iff bit_drop_bit_eq)

lemma crc8_round_inj: "crc8_round a = crc8_round b \<longleftrightarrow> a = b"
proof
  assume "crc8_round a = crc8_round b"
  then have "crc8_round (a XOR b) = 0" by (simp add: crc8_round_xor)
  then show "a = b" by simp
qed simp

lemma owb_crc8_byte_inj_data: "owb_crc8_byte c a = owb_crc8_byte c b \<longleftrightarrow> a = b"
  by (simp add: owb_crc8_byte_def crc8_round_inj word_xor_cancel_left)

lemma owb_crc8_byte_inj_seed: "owb_crc8_byte c d = owb_crc8_byte c' d \<longleftrightarrow> c = c'"
  by (simp add: owb_crc8_byte_def crc8_round_inj word_xor_cancel_right)

lemma owb_crc8_bytes_inj_seed: "owb_crc8_bytes c zs = owb_crc8_bytes c' zs \<longleftrightarrow> c = c'"
  by (induction zs arbitrary: c c') (simp_all add: owb_crc8_bytes_Cons owb_crc8_byte_inj_seed)

text \<open>Round trip: a message followed by its CRC checks to zero.\<close>

lemma owb_crc8_bytes_append_crc:
  "owb_crc8_bytes 0 (xs @ [owb_crc8_bytes 0 xs]) = 0"
  by (simp add: owb_crc8_bytes_snoc)

text \<open>
  The receiver's check (the CRC over all bytes, the stored CRC included, is zero) is
  equivalent to the sender's relation (the stored CRC equals the CRC of the rest).
\<close>

lemma owb_crc8_bytes_snoc_eq_0_iff:
  "owb_crc8_bytes crc (xs @ [x]) = 0 \<longleftrightarrow> x = owb_crc8_bytes crc xs"
  by (simp add: owb_crc8_bytes_snoc owb_crc8_byte_eq_0_iff)

lemma owb_crc8_bytes_check_last:
  assumes "xs \<noteq> []"
  shows "owb_crc8_bytes crc xs = 0 \<longleftrightarrow> last xs = owb_crc8_bytes crc (butlast xs)"
proof -
  from assms have "xs = butlast xs @ [last xs]" by simp
  then have "owb_crc8_bytes crc xs = owb_crc8_bytes crc (butlast xs @ [last xs])" by simp
  then show ?thesis by (simp add: owb_crc8_bytes_snoc_eq_0_iff)
qed

subsection \<open>Error detection\<close>

text \<open>
  The CRC-8 that checks ROM codes and scratchpads detects every corruption of a single
  byte: two messages that differ in exactly one byte have different CRCs, so a message
  that checked to zero no longer does.
\<close>

lemma owb_crc8_bytes_single_byte_error:
  assumes "a \<noteq> b"
  shows "owb_crc8_bytes c (xs @ a # zs) \<noteq> owb_crc8_bytes c (xs @ b # zs)"
  using assms
  by (simp add: owb_crc8_bytes_append owb_crc8_bytes_Cons owb_crc8_bytes_inj_seed
      owb_crc8_byte_inj_data)

end
