(* ===== verification/Rom.thy ===== *)
theory Rom
  imports CRC8
begin

text \<open>
  ROM codes as the 1-Wire search sees them: 64 bits numbered 1 to 64 in the order they
  travel on the wire (bit 0 of byte 0 first), which is how \<open>_search\<close> in the owb
  library indexes them (\<open>id_bit_number\<close>, \<open>rom_byte_number\<close>, \<open>rom_byte_mask\<close>).
  The theory defines reading and writing one bit, agreement of two codes on a prefix,
  the order in which the search algorithm enumerates codes (the lexicographic order of
  the wire bits, a 0 branch before a 1 branch), and the fact that a code whose CRC
  checks is determined by its first 56 bits.
\<close>

unbundle bit_operations_syntax

subsection \<open>Bits of a ROM code\<close>

text \<open>
  \<open>state->rom_code.bytes[rom_byte_number] & rom_byte_mask\<close> with
  \<open>id_bit_number = 8 * rom_byte_number + log2 rom_byte_mask + 1\<close>.
\<close>

definition rom_bit :: "rom \<Rightarrow> nat \<Rightarrow> bool" where
  "rom_bit r n = bit (r ! ((n - 1) div 8)) ((n - 1) mod 8)"

text \<open>
  \<open>bytes[rom_byte_number] |= rom_byte_mask\<close> when the search direction is 1,
  \<open>bytes[rom_byte_number] &= ~rom_byte_mask\<close> when it is 0.
\<close>

definition rom_set_bit :: "rom \<Rightarrow> nat \<Rightarrow> bool \<Rightarrow> rom" where
  "rom_set_bit r n v =
     (let i = (n - 1) div 8; m = push_bit ((n - 1) mod 8) (1::byte)
      in r[i := (if v then r ! i OR m else r ! i AND NOT m)])"

subsection \<open>Agreement on a prefix and the enumeration order\<close>

definition rom_agree :: "rom \<Rightarrow> rom \<Rightarrow> nat \<Rightarrow> bool" where
  "rom_agree a b p = list_all (\<lambda>j. rom_bit a j = rom_bit b j) [1..<p]"

text \<open>
  The search takes the 0 branch before the 1 branch at every discrepancy, so it
  enumerates codes in the lexicographic order of their wire bits.
\<close>

definition rom_lt :: "rom \<Rightarrow> rom \<Rightarrow> bool" where
  "rom_lt a b = list_ex (\<lambda>p. rom_agree a b p \<and> \<not> rom_bit a p \<and> rom_bit b p) [1..<65]"

subsection \<open>Fields and the ROM CRC\<close>

text \<open>The fields of the \<open>OneWireBus_ROMCode\<close> union, over its byte array.\<close>

definition rom_family :: "rom \<Rightarrow> byte" where
  "rom_family r = r ! 0"

definition rom_serial_number :: "rom \<Rightarrow> byte list" where
  "rom_serial_number r = take 6 (drop 1 r)"

definition rom_crc :: "rom \<Rightarrow> byte" where
  "rom_crc r = r ! 7"

text \<open>A ROM code passes the bus's CRC check when the CRC-8 over all eight bytes is zero.\<close>

definition rom_crc_ok :: "rom \<Rightarrow> bool" where
  "rom_crc_ok r \<longleftrightarrow> length r = 8 \<and> owb_crc8_bytes 0 r = 0"

subsection \<open>The enumeration order as a sorted list\<close>

text \<open>
  The specification of what an enumeration of the bus returns: the devices' codes,
  each once, in the order of the search. \<open>rom_sort\<close> computes it by insertion.
\<close>

fun rom_insert :: "rom \<Rightarrow> rom list \<Rightarrow> rom list" where
  "rom_insert x [] = [x]"
| "rom_insert x (y # ys) =
     (if x = y then y # ys else if rom_lt x y then x # y # ys else y # rom_insert x ys)"

definition rom_sort :: "rom list \<Rightarrow> rom list" where
  "rom_sort D = foldr rom_insert D []"

subsection \<open>Lemmas: bits, order, CRC, sorting\<close>

lemma length_rom_set_bit [simp]: "length (rom_set_bit r n v) = length r"
  by (simp add: rom_set_bit_def Let_def)

lemma rom_bit_set_same [rom_bit_simps]:
  assumes "(n - 1) div 8 < length r"
  shows "rom_bit (rom_set_bit r n v) n = v"
  using assms by (simp add: rom_set_bit_def rom_bit_def Let_def bit_or_iff bit_and_iff
      bit_not_iff bit_mask_byte del: push_bit_of_1)

lemma rom_bit_set_other [rom_bit_simps]:
  assumes "1 \<le> n" and "1 \<le> m" and "m \<noteq> n"
  shows "rom_bit (rom_set_bit r n v) m = rom_bit r m"
proof (cases "(m - 1) div 8 = (n - 1) div 8")
  case True
  have "(m - 1) mod 8 \<noteq> (n - 1) mod 8"
  proof
    assume "(m - 1) mod 8 = (n - 1) mod 8"
    with True have "m - 1 = n - 1" by (metis div_mult_mod_eq)
    with assms show False by arith
  qed
  with True show ?thesis
    by (cases "(n - 1) div 8 < length r")
       (auto simp: rom_set_bit_def rom_bit_def Let_def bit_or_iff bit_and_iff bit_not_iff
         bit_mask_byte list_update_beyond simp del: push_bit_of_1)
next
  case False
  then show ?thesis by (simp add: rom_set_bit_def rom_bit_def Let_def)
qed

text \<open>Bit \<open>8 * i + k + 1\<close> is bit \<open>k\<close> of byte \<open>i\<close>.\<close>

lemma rom_bit_byte: "k < 8 \<Longrightarrow> rom_bit r (8 * i + k + 1) = bit (r ! i) k"
proof -
  assume k: "k < 8"
  then have "(8 * i + k) div 8 = i" and "(8 * i + k) mod 8 = k" by simp_all
  then show ?thesis by (simp add: rom_bit_def)
qed

lemma rom_eqI:
  assumes "length a = 8" and "length b = 8"
    and "\<And>n. 1 \<le> n \<Longrightarrow> n \<le> 64 \<Longrightarrow> rom_bit a n = rom_bit b n"
  shows "a = b"
proof (rule nth_equalityI)
  show "length a = length b" using assms by simp
next
  fix i assume "i < length a"
  with assms(1) have i: "i < 8" by simp
  show "a ! i = b ! i"
  proof (rule byte_eqI_bits)
    fix k :: nat assume k: "k < 8"
    with i have "1 \<le> 8 * i + k + 1" and "8 * i + k + 1 \<le> 64" by simp_all
    with assms(3) have "rom_bit a (8 * i + k + 1) = rom_bit b (8 * i + k + 1)" by blast
    then show "bit (a ! i) k = bit (b ! i) k"
      using rom_bit_byte [OF k, of a i] rom_bit_byte [OF k, of b i] by simp
  qed
qed

lemma rom_agree_iff:
  "rom_agree a b p \<longleftrightarrow> (\<forall>j. 1 \<le> j \<and> j < p \<longrightarrow> rom_bit a j = rom_bit b j)"
  by (simp add: rom_agree_def list_all_upt_iff)

lemma rom_agree_refl [simp]: "rom_agree a a p"
  by (simp add: rom_agree_iff)

lemma rom_agree_sym: "rom_agree a b p \<Longrightarrow> rom_agree b a p"
  by (simp add: rom_agree_iff)

lemma rom_agree_trans: "rom_agree a b p \<Longrightarrow> rom_agree b c p \<Longrightarrow> rom_agree a c p"
  by (simp add: rom_agree_iff)

lemma rom_agree_mono: "rom_agree a b p \<Longrightarrow> q \<le> p \<Longrightarrow> rom_agree a b q"
  by (simp add: rom_agree_iff)

lemma rom_agree_Suc:
  "1 \<le> p \<Longrightarrow> rom_agree a b (Suc p) \<longleftrightarrow> rom_agree a b p \<and> rom_bit a p = rom_bit b p"
  by (auto simp: rom_agree_iff less_Suc_eq)

lemma rom_agree_le_1 [simp]: "p \<le> 1 \<Longrightarrow> rom_agree a b p"
  by (auto simp: rom_agree_iff)

lemma rom_lt_iff:
  "rom_lt a b \<longleftrightarrow> (\<exists>p. 1 \<le> p \<and> p \<le> 64 \<and> rom_agree a b p \<and> \<not> rom_bit a p \<and> rom_bit b p)"
  by (auto simp: rom_lt_def list_ex_upt_iff)

lemma rom_lt_irrefl [simp]: "\<not> rom_lt a a"
  by (simp add: rom_lt_iff)

lemma rom_lt_asym: "rom_lt a b \<Longrightarrow> \<not> rom_lt b a"
proof
  assume "rom_lt a b" and "rom_lt b a"
  then obtain p q where p: "1 \<le> p" "rom_agree a b p" "\<not> rom_bit a p" "rom_bit b p"
    and q: "1 \<le> q" "rom_agree b a q" "\<not> rom_bit b q" "rom_bit a q"
    by (auto simp: rom_lt_iff)
  consider "p < q" | "q < p" | "p = q" by arith
  then show False
  proof cases
    case 1
    with p q show False by (auto simp: rom_agree_iff)
  next
    case 2
    with p q show False by (auto simp: rom_agree_iff)
  next
    case 3
    with p q show False by simp
  qed
qed

lemma rom_lt_trans:
  assumes "rom_lt a b" and "rom_lt b c"
  shows "rom_lt a c"
proof -
  obtain p where p: "1 \<le> p" "p \<le> 64" "rom_agree a b p" "\<not> rom_bit a p" "rom_bit b p"
    using assms(1) by (auto simp: rom_lt_iff)
  obtain q where q: "1 \<le> q" "q \<le> 64" "rom_agree b c q" "\<not> rom_bit b q" "rom_bit c q"
    using assms(2) by (auto simp: rom_lt_iff)
  consider "p < q" | "q < p" | "p = q" by arith
  then show ?thesis
  proof cases
    case 1
    with q have "rom_agree b c (Suc p)" by (auto intro: rom_agree_mono)
    with p have "rom_agree a c p" and "rom_bit c p"
      by (auto simp: rom_agree_iff)
    with p show ?thesis by (auto simp: rom_lt_iff)
  next
    case 2
    with p have "rom_agree a b (Suc q)" by (auto intro: rom_agree_mono)
    with q have "rom_agree a c q" and "\<not> rom_bit a q"
      by (auto simp: rom_agree_iff)
    with q show ?thesis by (auto simp: rom_lt_iff)
  next
    case 3
    with p q show ?thesis by simp
  qed
qed

lemma rom_lt_total:
  assumes "length a = 8" and "length b = 8" and "a \<noteq> b"
  shows "rom_lt a b \<or> rom_lt b a"
proof -
  let ?P = "\<lambda>p. 1 \<le> p \<and> p \<le> 64 \<and> rom_bit a p \<noteq> rom_bit b p"
  have "\<exists>p. ?P p" using assms rom_eqI by blast
  then obtain p where p: "?P p" and least: "\<And>q. q < p \<Longrightarrow> \<not> ?P q"
    using exists_least_iff [of ?P] by blast
  have "rom_agree a b p"
  proof (unfold rom_agree_iff, intro allI impI)
    fix j assume "1 \<le> j \<and> j < p"
    with p least [of j] show "rom_bit a j = rom_bit b j" by auto
  qed
  with p show ?thesis
    by (cases "rom_bit a p") (auto simp: rom_lt_iff intro: rom_agree_sym)
qed

lemma rom_length_8_cases:
  assumes "length r = 8"
  obtains x0 x1 x2 x3 x4 x5 x6 x7 where "r = [x0, x1, x2, x3, x4, x5, x6, x7]"
  using assms by (auto simp: length_Suc_conv numeral_eq_Suc)

text \<open>
  The check on the whole code is the specification's invariant on the fields: the
  \<open>crc\<close> byte is the CRC-8 of \<open>family\<close> followed by \<open>serial_number\<close>.
\<close>

lemma rom_crc_ok_iff_fields:
  assumes "length r = 8"
  shows "rom_crc_ok r \<longleftrightarrow> rom_crc r = owb_crc8_bytes 0 (rom_family r # rom_serial_number r)"
proof -
  obtain x0 x1 x2 x3 x4 x5 x6 x7 where r: "r = [x0, x1, x2, x3, x4, x5, x6, x7]"
    using assms by (rule rom_length_8_cases)
  have "owb_crc8_bytes 0 r = 0 \<longleftrightarrow> x7 = owb_crc8_bytes 0 [x0, x1, x2, x3, x4, x5, x6]"
    using owb_crc8_bytes_snoc_eq_0_iff [of 0 "[x0, x1, x2, x3, x4, x5, x6]" x7] r by simp
  then show ?thesis
    by (simp add: rom_crc_ok_def rom_crc_def rom_family_def rom_serial_number_def r)
qed

text \<open>Two codes that pass the check and agree on their first 56 bits are equal.\<close>

lemma rom_crc_ok_agree_eq:
  assumes a: "rom_crc_ok a" and b: "rom_crc_ok b" and ag: "rom_agree a b 57"
  shows "a = b"
proof -
  from a b have la: "length a = 8" and lb: "length b = 8" by (simp_all add: rom_crc_ok_def)
  have bl: "butlast a = butlast b"
  proof (rule nth_equalityI)
    show "length (butlast a) = length (butlast b)" using la lb by simp
  next
    fix i assume "i < length (butlast a)"
    with la have i: "i < 7" by simp
    show "butlast a ! i = butlast b ! i"
    proof -
      have "a ! i = b ! i"
      proof (rule byte_eqI_bits)
        fix k :: nat assume k: "k < 8"
        with i have "1 \<le> 8 * i + k + 1" and "8 * i + k + 1 < 57" by simp_all
        with ag have "rom_bit a (8 * i + k + 1) = rom_bit b (8 * i + k + 1)"
          by (simp add: rom_agree_iff)
        then show "bit (a ! i) k = bit (b ! i) k"
          using rom_bit_byte [OF k, of a i] rom_bit_byte [OF k, of b i] by simp
      qed
      with i la lb show ?thesis by (simp add: nth_butlast)
    qed
  qed
  from la have "a \<noteq> []" by auto
  with a have "last a = owb_crc8_bytes 0 (butlast a)"
    by (simp add: rom_crc_ok_def owb_crc8_bytes_check_last)
  moreover from lb have "b \<noteq> []" by auto
  with b have "last b = owb_crc8_bytes 0 (butlast b)"
    by (simp add: rom_crc_ok_def owb_crc8_bytes_check_last)
  ultimately have "last a = last b" using bl by simp
  with bl \<open>a \<noteq> []\<close> \<open>b \<noteq> []\<close> show ?thesis
    by (metis append_butlast_last_id)
qed

lemma set_rom_insert [simp]: "set (rom_insert x ys) = insert x (set ys)"
  by (induction ys) auto

lemma set_rom_sort [simp]: "set (rom_sort D) = set D"
  by (induction D) (simp_all add: rom_sort_def)

lemma sorted_rom_insert:
  assumes "length x = 8" and "\<forall>y\<in>set ys. length y = 8" and "sorted_wrt rom_lt ys"
  shows "sorted_wrt rom_lt (rom_insert x ys)"
  using assms
proof (induction ys)
  case Nil
  then show ?case by simp
next
  case (Cons y ys)
  have IH: "sorted_wrt rom_lt (rom_insert x ys)" using Cons by simp
  consider "x = y" | "x \<noteq> y" "rom_lt x y" | "x \<noteq> y" "\<not> rom_lt x y" by blast
  then show ?case
  proof cases
    case 1
    with Cons.prems show ?thesis by simp
  next
    case 2
    have "\<forall>z\<in>set ys. rom_lt x z" using 2 Cons.prems(3) by (auto intro: rom_lt_trans)
    with 2 Cons.prems(3) show ?thesis by simp
  next
    case 3
    with Cons.prems have yx: "rom_lt y x" using rom_lt_total by auto
    have "\<forall>z\<in>set (rom_insert x ys). rom_lt y z" using yx Cons.prems(3) by simp
    with 3 IH show ?thesis by simp
  qed
qed

lemma rom_sort_Cons: "rom_sort (d # D) = rom_insert d (rom_sort D)"
  by (simp add: rom_sort_def)

lemma sorted_rom_sort:
  "\<forall>d\<in>set D. length d = 8 \<Longrightarrow> sorted_wrt rom_lt (rom_sort D)"
proof (induction D)
  case Nil
  then show ?case by (simp add: rom_sort_def)
next
  case (Cons d D)
  then have "sorted_wrt rom_lt (rom_sort D)" by simp
  with Cons.prems show ?case by (simp add: rom_sort_Cons sorted_rom_insert)
qed

text \<open>A list sorted by a strict order is determined by its elements.\<close>

lemma sorted_wrt_rom_lt_unique:
  "sorted_wrt rom_lt xs \<Longrightarrow> sorted_wrt rom_lt ys \<Longrightarrow> set xs = set ys \<Longrightarrow> xs = ys"
proof (induction xs arbitrary: ys)
  case Nil
  then show ?case by simp
next
  case (Cons x xs)
  then obtain y ys' where ys: "ys = y # ys'" by (cases ys) auto
  have "x = y"
  proof (rule ccontr)
    assume "x \<noteq> y"
    with Cons.prems ys have "x \<in> set ys'" and "y \<in> set xs" by auto
    with Cons.prems ys have "rom_lt y x" and "rom_lt x y" by auto
    then show False using rom_lt_asym by blast
  qed
  moreover have "x \<notin> set xs" and "y \<notin> set ys'" using Cons.prems ys by auto
  ultimately have "set xs = set ys'" using Cons.prems ys by auto
  with Cons ys \<open>x = y\<close> show ?case by simp
qed

lemma length_rom_insert_le: "length (rom_insert x ys) \<le> Suc (length ys)"
  by (induction ys) auto

lemma length_rom_sort_le: "length (rom_sort D) \<le> length D"
proof (induction D)
  case Nil
  then show ?case by (simp add: rom_sort_def)
next
  case (Cons d D)
  then show ?case using length_rom_insert_le [of d "rom_sort D"] by (simp add: rom_sort_Cons)
qed

lemma sorted_wrt_rom_lt_distinct: "sorted_wrt rom_lt xs \<Longrightarrow> distinct xs"
  by (induction xs) auto

lemma length_rom_sort_distinct:
  assumes "\<forall>d\<in>set D. length d = 8" and "distinct D"
  shows "length (rom_sort D) = length D"
proof -
  have "distinct (rom_sort D)" using sorted_rom_sort [OF assms(1)] by (rule sorted_wrt_rom_lt_distinct)
  then have "length (rom_sort D) = card (set D)" by (simp add: distinct_card [symmetric])
  with assms(2) show ?thesis by (simp add: distinct_card)
qed

end
