(* ===== verification/OwbSearch.thy ===== *)
theory OwbSearch
  imports Rom
begin

text \<open>
  The 1-Wire bus adapter of the owb library as the application uses it: creating the
  bus (\<open>owb_rmt_initialize\<close>), enabling the ROM CRC check (\<open>owb_use_crc\<close>), the ROM
  search of Maxim application note 187 (\<open>_search\<close>, \<open>owb_search_first\<close>,
  \<open>owb_search_next\<close>) and \<open>owb_verify_rom\<close>. The library is not part of this
  repository; the model follows the specification (section 4.1), with the devices
  on the wire as part of the bus value: during the search every device that still
  matches the chosen prefix answers each bit and its complement on the open-drain
  line, which reads as the AND of what the devices drive (1 when nobody drives it).

  The main results: a search whose discrepancy choices agree with a target device
  finds that device and records its deepest 0-branch discrepancy; on a bus of devices
  with valid ROM codes, \<open>owb_search_first\<close> finds the least device in the wire-bit
  order, \<open>owb_search_next\<close> the next one, and reports the end after the greatest;
  every code a search reports is a device on the bus; and \<open>owb_verify_rom\<close> answers
  whether a code is on the bus.
\<close>

unbundle bit_operations_syntax

subsection \<open>The bus and the search state\<close>

record owb =
  bus_gpio :: nat
  bus_use_crc :: bool
  bus_devices :: "rom list"

definition owb_rmt_initialize :: "nat \<Rightarrow> rom list \<Rightarrow> owb" where
  "owb_rmt_initialize gpio devs = \<lparr>bus_gpio = gpio, bus_use_crc = False, bus_devices = devs\<rparr>"

definition owb_use_crc :: "owb \<Rightarrow> bool \<Rightarrow> owb" where
  "owb_use_crc bus use_crc = bus\<lparr>bus_use_crc := use_crc\<rparr>"

text \<open>\<open>OneWireBus_SearchState\<close>.\<close>

record search_state =
  rom_code :: rom
  last_discrepancy :: nat
  last_family_discrepancy :: nat
  last_device_flag :: bool

subsection \<open>The search\<close>

text \<open>
  The bit loop of \<open>_search\<close>: \<open>n\<close> is \<open>id_bit_number\<close>, \<open>lz\<close> is \<open>last_zero\<close>,
  \<open>part\<close> the devices still taking part. The loop ends after bit 64 or when no device
  answers (both reads 1). It returns the state, the final \<open>id_bit_number\<close> and
  \<open>last_zero\<close>.
\<close>

function search_bits :: "rom list \<Rightarrow> search_state \<Rightarrow> nat \<Rightarrow> nat \<Rightarrow> search_state \<times> nat \<times> nat" where
  "search_bits part st n lz =
     (if 64 < n then (st, n, lz)
      else
        let id_bit = list_all (\<lambda>d. rom_bit d n) part;
            cmp_id_bit = list_all (\<lambda>d. \<not> rom_bit d n) part
        in if id_bit \<and> cmp_id_bit then (st, n, lz)
        else
          let dir = (if id_bit \<noteq> cmp_id_bit then id_bit
                     else if n < last_discrepancy st then rom_bit (rom_code st) n
                     else n = last_discrepancy st);
              lz' = (if id_bit = cmp_id_bit \<and> \<not> dir then n else lz);
              st' = (if id_bit = cmp_id_bit \<and> \<not> dir \<and> n < 9
                     then st\<lparr>last_family_discrepancy := n\<rparr> else st)
          in search_bits (filter (\<lambda>d. rom_bit d n = dir) part)
               (st'\<lparr>rom_code := rom_set_bit (rom_code st') n dir\<rparr>) (Suc n) lz')"
  by pat_completeness auto
termination
  by (relation "measure (\<lambda>(part, st, n, lz). 65 - n)") auto

declare search_bits.simps [simp del]

text \<open>
  \<open>_search\<close>: unless the previous search found the last device, reset the bus (no
  presence ends the search), walk the 64 bits, and accept the code when all bits were
  read and, with CRC checking on, its CRC-8 is zero. A failed search, or a code whose
  family byte is 0, resets the search state.
\<close>

definition owb_search :: "owb \<Rightarrow> search_state \<Rightarrow> search_state \<times> bool" where
  "owb_search bus st =
     (let (st1, search_result) =
        (if last_device_flag st then (st, False)
         else if bus_devices bus = [] then (st, False)
         else
           (case search_bits (bus_devices bus) st 1 0 of
              (st', n, lz) \<Rightarrow>
                if 64 < n \<and> (\<not> bus_use_crc bus \<or> owb_crc8_bytes 0 (rom_code st') = 0)
                then (st'\<lparr>last_discrepancy := lz, last_device_flag := (lz = 0)\<rparr>, True)
                else (st', False)))
      in if \<not> search_result \<or> rom_code st1 ! 0 = 0
         then (st1\<lparr>last_discrepancy := 0, last_device_flag := False,
                   last_family_discrepancy := 0\<rparr>, False)
         else (st1, True))"

definition owb_search_first :: "owb \<Rightarrow> search_state \<Rightarrow> search_state \<times> bool" where
  "owb_search_first bus st =
     owb_search bus (st\<lparr>rom_code := replicate 8 0, last_discrepancy := 0,
                        last_family_discrepancy := 0, last_device_flag := False\<rparr>)"

definition owb_search_next :: "owb \<Rightarrow> search_state \<Rightarrow> search_state \<times> bool" where
  "owb_search_next bus st = owb_search bus st"

text \<open>
  \<open>owb_verify_rom\<close>: a search seeded with the code and \<open>last_discrepancy = 64\<close>
  follows the code's bits at every discrepancy; the code is present when the search
  finds it.
\<close>

definition owb_verify_rom :: "owb \<Rightarrow> rom \<Rightarrow> bool" where
  "owb_verify_rom bus r =
     (case owb_search bus \<lparr>rom_code = r, last_discrepancy = 64, last_family_discrepancy = 0,
                           last_device_flag = False\<rparr> of
        (st', found) \<Rightarrow> found \<and> rom_code st' = r)"

subsection \<open>What the walk does\<close>

text \<open>
  A discrepancy at bit \<open>p\<close> on the way to device \<open>t\<close>: some device agrees with
  \<open>t\<close> before \<open>p\<close> and differs at \<open>p\<close>. A 0-discrepancy is one where \<open>t\<close> takes the
  0 branch; the deepest one is what the search records as \<open>last_discrepancy\<close>.
\<close>

definition conflict_at :: "rom list \<Rightarrow> rom \<Rightarrow> nat \<Rightarrow> bool" where
  "conflict_at D t p = list_ex (\<lambda>d. rom_agree d t p \<and> rom_bit d p \<noteq> rom_bit t p) D"

definition zconf :: "rom list \<Rightarrow> rom \<Rightarrow> nat \<Rightarrow> bool" where
  "zconf D t p \<longleftrightarrow> \<not> rom_bit t p \<and> conflict_at D t p"

definition last_disc :: "rom list \<Rightarrow> rom \<Rightarrow> nat" where
  "last_disc D t = last (0 # filter (zconf D t) [1..<65])"

text \<open>The branch the loop takes at a discrepancy, for the state it starts from.\<close>

definition branch :: "search_state \<Rightarrow> nat \<Rightarrow> bool" where
  "branch st p = (if p < last_discrepancy st then rom_bit (rom_code st) p
                  else p = last_discrepancy st)"

subsection \<open>What one search returns\<close>

text \<open>
  Devices on a well-formed bus carry ROM codes whose CRC-8 checks and whose family
  byte is not 0 (\<open>_search\<close> rejects a code with family 0).
\<close>

definition bus_wf :: "rom list \<Rightarrow> bool" where
  "bus_wf D \<longleftrightarrow> list_all (\<lambda>r. rom_crc_ok r \<and> r ! 0 \<noteq> 0) D"

text \<open>The search state after a search that found device \<open>x\<close>.\<close>

definition search_found :: "rom list \<Rightarrow> rom \<Rightarrow> search_state \<Rightarrow> bool" where
  "search_found D x st \<longleftrightarrow>
     rom_code st = x \<and> last_discrepancy st = last_disc D x \<and>
     last_device_flag st = (last_disc D x = 0)"

subsection \<open>Lemmas: the search loop and its enumeration\<close>

lemma search_bits_step:
  assumes "n \<le> 64"
  shows "search_bits part st n lz =
    (let id_bit = list_all (\<lambda>d. rom_bit d n) part;
         cmp_id_bit = list_all (\<lambda>d. \<not> rom_bit d n) part
     in if id_bit \<and> cmp_id_bit then (st, n, lz)
     else
       let dir = (if id_bit \<noteq> cmp_id_bit then id_bit else branch st n);
           lz' = (if id_bit = cmp_id_bit \<and> \<not> dir then n else lz);
           st' = (if id_bit = cmp_id_bit \<and> \<not> dir \<and> n < 9
                  then st\<lparr>last_family_discrepancy := n\<rparr> else st)
       in search_bits (filter (\<lambda>d. rom_bit d n = dir) part)
            (st'\<lparr>rom_code := rom_set_bit (rom_code st') n dir\<rparr>) (Suc n) lz')"
proof -
  from assms have n: "\<not> 64 < n" by simp
  show ?thesis by (subst search_bits.simps) (simp only: branch_def n if_False)
qed

lemma search_bits_done: "64 < n \<Longrightarrow> search_bits part st n lz = (st, n, lz)"
  by (subst search_bits.simps) simp

text \<open>
  One step of the walk when device \<open>t\<close> takes part and the branch taken at a
  discrepancy is \<open>t\<close>'s bit: the loop goes on with the devices that agree with
  \<open>t\<close> on this bit, writes \<open>t\<close>'s bit into the code, and records the bit as
  \<open>last_zero\<close> when it was a discrepancy where \<open>t\<close> goes to 0.
\<close>

lemma search_bits_follow_step:
  assumes n: "n \<le> 64" and t: "t \<in> set part"
    and br: "list_ex (\<lambda>d. rom_bit d n \<noteq> rom_bit t n) part \<Longrightarrow> branch st n = rom_bit t n"
  shows "search_bits part st n lz =
    search_bits (filter (\<lambda>d. rom_bit d n = rom_bit t n) part)
      (st\<lparr>last_family_discrepancy :=
            (if list_ex (\<lambda>d. rom_bit d n \<noteq> rom_bit t n) part \<and> \<not> rom_bit t n \<and> n < 9
             then n else last_family_discrepancy st),
          rom_code := rom_set_bit (rom_code st) n (rom_bit t n)\<rparr>)
      (Suc n)
      (if list_ex (\<lambda>d. rom_bit d n \<noteq> rom_bit t n) part \<and> \<not> rom_bit t n then n else lz)"
proof (cases "rom_bit t n")
  case True
  with t have cmp: "\<not> list_all (\<lambda>d. \<not> rom_bit d n) part" by (auto simp: list_all_iff)
  show ?thesis
  proof (cases "list_all (\<lambda>d. rom_bit d n) part")
    case all: True
    then have "\<not> list_ex (\<lambda>d. rom_bit d n \<noteq> rom_bit t n) part"
      using True by (auto simp: list_all_iff list_ex_iff)
    with all cmp True show ?thesis by (simp add: search_bits_step [OF n])
  next
    case False
    then have c: "list_ex (\<lambda>d. rom_bit d n \<noteq> rom_bit t n) part"
      using True by (auto simp: list_all_iff list_ex_iff)
    with br True have "branch st n" by simp
    with False cmp c True show ?thesis by (simp add: search_bits_step [OF n])
  qed
next
  case False
  with t have idb: "\<not> list_all (\<lambda>d. rom_bit d n) part" by (auto simp: list_all_iff)
  show ?thesis
  proof (cases "list_all (\<lambda>d. \<not> rom_bit d n) part")
    case all: True
    then have "\<not> list_ex (\<lambda>d. rom_bit d n \<noteq> rom_bit t n) part"
      using False by (auto simp: list_all_iff list_ex_iff)
    with all idb False show ?thesis by (simp add: search_bits_step [OF n])
  next
    case cmp: False
    then have c: "list_ex (\<lambda>d. rom_bit d n \<noteq> rom_bit t n) part"
      using False by (auto simp: list_all_iff list_ex_iff)
    with br False have "\<not> branch st n" by simp
    with idb cmp c False show ?thesis by (simp add: search_bits_step [OF n])
  qed
qed

lemma conflict_at_filter:
  assumes "t \<in> set D"
  shows "list_ex (\<lambda>d. rom_bit d n \<noteq> rom_bit t n) (filter (\<lambda>d. rom_agree d t n) D)
           \<longleftrightarrow> conflict_at D t n"
  by (auto simp: conflict_at_def list_ex_iff)

lemma filter_agree_Suc:
  "1 \<le> n \<Longrightarrow> filter (\<lambda>d. rom_bit d n = rom_bit t n) (filter (\<lambda>d. rom_agree d t n) D) =
     filter (\<lambda>d. rom_agree d t (Suc n)) D"
  by (simp add: rom_agree_Suc conj_commute)

lemma branch_set_other:
  assumes "1 \<le> n" and "n < p"
  shows "branch (st\<lparr>last_family_discrepancy := f, rom_code := rom_set_bit (rom_code st) n v\<rparr>) p =
         branch st p"
  using assms by (simp add: branch_def rom_bit_set_other)

text \<open>
  The walk towards a target: if every discrepancy on the way to device \<open>t\<close> is
  resolved towards \<open>t\<close>, the loop reads all 64 bits, writes \<open>t\<close>'s bits into the
  code and returns as \<open>last_zero\<close> the deepest 0-discrepancy (or the one it started
  with).
\<close>

lemma search_bits_follow:
  assumes "t \<in> set D" and "length (rom_code st) = 8" and "1 \<le> n" and "n \<le> 65"
    and "part = filter (\<lambda>d. rom_agree d t n) D"
    and "\<And>p. n \<le> p \<Longrightarrow> p \<le> 64 \<Longrightarrow> conflict_at D t p \<Longrightarrow> branch st p = rom_bit t p"
    and "search_bits part st n lz = (st', m, z)"
  shows "m = 65 \<and> z = last (lz # filter (zconf D t) [n..<65]) \<and> length (rom_code st') = 8 \<and>
    (\<forall>p. 1 \<le> p \<and> p < n \<longrightarrow> rom_bit (rom_code st') p = rom_bit (rom_code st) p) \<and>
    (\<forall>p. n \<le> p \<and> p \<le> 64 \<longrightarrow> rom_bit (rom_code st') p = rom_bit t p) \<and>
    last_discrepancy st' = last_discrepancy st \<and> last_device_flag st' = last_device_flag st"
  using assms(2-)
proof (induction "65 - n" arbitrary: n part st lz)
  case 0
  then have "n = 65" by simp
  with "0.prems" show ?case by (auto simp: search_bits_done)
next
  case (Suc k)
  then have n: "n \<le> 64" by simp
  have t: "t \<in> set part" using Suc.prems(4) assms(1) by simp
  let ?b = "rom_bit t n"
  let ?c = "list_ex (\<lambda>d. rom_bit d n \<noteq> rom_bit t n) part"
  have c: "?c \<longleftrightarrow> conflict_at D t n"
    using Suc.prems(4) conflict_at_filter [OF assms(1)] by simp
  have br: "?c \<Longrightarrow> branch st n = ?b" using Suc.prems(5) [of n] n c by simp
  let ?f = "if ?c \<and> \<not> ?b \<and> n < 9 then n else last_family_discrepancy st"
  let ?st2 = "st\<lparr>last_family_discrepancy := ?f, rom_code := rom_set_bit (rom_code st) n ?b\<rparr>"
  let ?lz2 = "if ?c \<and> \<not> ?b then n else lz"
  have run: "search_bits (filter (\<lambda>d. rom_bit d n = ?b) part) ?st2 (Suc n) ?lz2 = (st', m, z)"
    using search_bits_follow_step [OF n t br, of lz] Suc.prems(6) by simp
  have part2: "filter (\<lambda>d. rom_bit d n = ?b) part = filter (\<lambda>d. rom_agree d t (Suc n)) D"
    using Suc.prems(4) filter_agree_Suc [OF Suc.prems(2)] by simp
  have br2: "branch ?st2 p = rom_bit t p"
    if "Suc n \<le> p" "p \<le> 64" "conflict_at D t p" for p
    using that Suc.prems(5) [of p] branch_set_other [OF Suc.prems(2), of p] by simp
  have IH: "m = 65 \<and> z = last (?lz2 # filter (zconf D t) [Suc n..<65]) \<and>
    length (rom_code st') = 8 \<and>
    (\<forall>p. 1 \<le> p \<and> p < Suc n \<longrightarrow> rom_bit (rom_code st') p = rom_bit (rom_code ?st2) p) \<and>
    (\<forall>p. Suc n \<le> p \<and> p \<le> 64 \<longrightarrow> rom_bit (rom_code st') p = rom_bit t p) \<and>
    last_discrepancy st' = last_discrepancy ?st2 \<and> last_device_flag st' = last_device_flag ?st2"
  proof (rule Suc.hyps(1) [where n = "Suc n" and part = "filter (\<lambda>d. rom_bit d n = ?b) part" and st = ?st2 and lz = ?lz2])
    show "k = 65 - Suc n" using Suc.hyps(2) by simp
    show "length (rom_code ?st2) = 8" using Suc.prems(1) by simp
    show "1 \<le> Suc n" by simp
    show "Suc n \<le> 65" using n by simp
    show "filter (\<lambda>d. rom_bit d n = ?b) part = filter (\<lambda>d. rom_agree d t (Suc n)) D"
      by (rule part2)
    show "branch ?st2 p = rom_bit t p"
      if "Suc n \<le> p" "p \<le> 64" "conflict_at D t p" for p
      using that by (rule br2)
    show "search_bits (filter (\<lambda>d. rom_bit d n = ?b) part) ?st2 (Suc n) ?lz2 = (st', m, z)"
      by (rule run)
  qed
  have z: "last (?lz2 # filter (zconf D t) [Suc n..<65]) = last (lz # filter (zconf D t) [n..<65])"
    using n c by (simp add: upt_conv_Cons zconf_def)
  have len: "(n - 1) div 8 < length (rom_code st)" using n Suc.prems(1) by simp
  have same: "rom_bit (rom_code st') n = ?b"
    using IH rom_bit_set_same [OF len] Suc.prems(2) by simp
  have lower: "rom_bit (rom_code st') p = rom_bit (rom_code st) p" if "1 \<le> p" "p < n" for p
    using IH that Suc.prems(2) rom_bit_set_other [of n p "rom_code st" ?b] by simp
  have upper: "rom_bit (rom_code st') p = rom_bit t p" if "n \<le> p" "p \<le> 64" for p
    using IH same that by (cases "p = n") simp_all
  from IH z lower upper show ?case by simp
qed

text \<open>
  Whatever the branches, a walk that starts with devices that agree with the code so
  far, and reads all 64 bits, ends on the code of one of those devices.
\<close>

lemma follow_target_exists:
  assumes "part \<noteq> []"
  shows "\<exists>t\<in>set part. list_ex (\<lambda>d. rom_bit d n \<noteq> rom_bit t n) part \<longrightarrow> branch st n = rom_bit t n"
proof -
  obtain t0 where t0: "t0 \<in> set part" using assms by (cases part) auto
  show ?thesis
  proof (cases "list_ex (\<lambda>d. rom_bit d n \<noteq> rom_bit t0 n) part")
    case False
    with t0 show ?thesis by blast
  next
    case True
    then obtain d where d: "d \<in> set part" "rom_bit d n \<noteq> rom_bit t0 n" by (auto simp: list_ex_iff)
    show ?thesis
    proof (cases "branch st n = rom_bit t0 n")
      case True
      with t0 show ?thesis by blast
    next
      case False
      with d have "branch st n = rom_bit d n" by auto
      with d(1) show ?thesis by blast
    qed
  qed
qed

lemma search_bits_sound:
  assumes "part \<noteq> []" and "length (rom_code st) = 8" and "1 \<le> n"
    and "\<forall>d\<in>set part. rom_agree d (rom_code st) n"
    and "search_bits part st n lz = (st', m, z)" and "64 < m"
  shows "length (rom_code st') = 8 \<and> (\<exists>d\<in>set part. rom_agree d (rom_code st') 65)"
  using assms
proof (induction "65 - n" arbitrary: n part st lz)
  case 0
  then have "st' = st" by (simp add: search_bits_done)
  moreover obtain d where "d \<in> set part" using "0.prems"(1) by (cases part) auto
  ultimately show ?case using "0.prems" "0.hyps" by (auto intro: rom_agree_mono)
next
  case (Suc k)
  then have n: "n \<le> 64" by simp
  obtain t where t: "t \<in> set part"
    and br: "list_ex (\<lambda>d. rom_bit d n \<noteq> rom_bit t n) part \<Longrightarrow> branch st n = rom_bit t n"
    using follow_target_exists [OF Suc.prems(1)] by blast
  let ?b = "rom_bit t n"
  let ?c = "list_ex (\<lambda>d. rom_bit d n \<noteq> rom_bit t n) part"
  let ?f = "if ?c \<and> \<not> ?b \<and> n < 9 then n else last_family_discrepancy st"
  let ?st2 = "st\<lparr>last_family_discrepancy := ?f, rom_code := rom_set_bit (rom_code st) n ?b\<rparr>"
  let ?lz2 = "if ?c \<and> \<not> ?b then n else lz"
  let ?part2 = "filter (\<lambda>d. rom_bit d n = ?b) part"
  have run: "search_bits ?part2 ?st2 (Suc n) ?lz2 = (st', m, z)"
    using search_bits_follow_step [OF n t br, of lz] Suc.prems(5) by simp
  have len: "(n - 1) div 8 < length (rom_code st)" using n Suc.prems(2) by simp
  have ag2: "\<forall>d\<in>set ?part2. rom_agree d (rom_code ?st2) (Suc n)"
  proof
    fix d assume "d \<in> set ?part2"
    then have "d \<in> set part" and "rom_bit d n = ?b" by auto
    with Suc.prems(4) have "rom_agree d (rom_code st) n" by blast
    then have "rom_agree d (rom_code ?st2) n"
      using Suc.prems(3) by (simp add: rom_agree_iff rom_bit_set_other)
    with \<open>rom_bit d n = ?b\<close> Suc.prems(3) rom_bit_set_same [OF len] show
      "rom_agree d (rom_code ?st2) (Suc n)" by (simp add: rom_agree_Suc)
  qed
  have "length (rom_code st') = 8 \<and> (\<exists>d\<in>set ?part2. rom_agree d (rom_code st') 65)"
  proof (rule Suc.hyps(1) [where n = "Suc n" and part = ?part2 and st = ?st2 and lz = ?lz2])
    show "k = 65 - Suc n" using Suc.hyps(2) by simp
    show "?part2 \<noteq> []" using t by (auto simp: filter_empty_conv)
    show "length (rom_code ?st2) = 8" using Suc.prems(2) by simp
    show "1 \<le> Suc n" by simp
    show "\<forall>d\<in>set ?part2. rom_agree d (rom_code ?st2) (Suc n)" by (rule ag2)
    show "search_bits ?part2 ?st2 (Suc n) ?lz2 = (st', m, z)" by (rule run)
    show "64 < m" by (rule Suc.prems(6))
  qed
  then show ?case by auto
qed

subsection \<open>The deepest 0-discrepancy and the enumeration order\<close>

text \<open>
  A 0-discrepancy of \<open>x\<close> at \<open>p\<close> is a device that follows \<open>x\<close> up to \<open>p\<close>
  and branches to 1 where \<open>x\<close> branches to 0, that is a device above \<open>x\<close> whose
  first difference from \<open>x\<close> is at \<open>p\<close>.
\<close>

lemma zconf_iff:
  "zconf D x p \<longleftrightarrow> (\<exists>d\<in>set D. rom_agree d x p \<and> \<not> rom_bit x p \<and> rom_bit d p)"
  by (auto simp: zconf_def conflict_at_def list_ex_iff)

lemma last_disc_eq_0_iff:
  "last_disc D x = 0 \<longleftrightarrow> \<not> (\<exists>d\<in>set D. rom_lt x d)"
proof
  assume L: "last_disc D x = 0"
  show "\<not> (\<exists>d\<in>set D. rom_lt x d)"
  proof
    assume "\<exists>d\<in>set D. rom_lt x d"
    then obtain d p where "d \<in> set D" "1 \<le> p" "p \<le> 64" "rom_agree x d p"
      "\<not> rom_bit x p" "rom_bit d p" by (auto simp: rom_lt_iff)
    then have "zconf D x p" by (auto simp: zconf_iff intro: rom_agree_sym)
    with \<open>1 \<le> p\<close> \<open>p \<le> 64\<close> have ne: "filter (zconf D x) [1..<65] \<noteq> []"
      by (auto simp: filter_empty_conv)
    then have "1 \<le> last (filter (zconf D x) [1..<65])" using last_filter_upt [OF ne] by blast
    with ne L show False by (simp add: last_disc_def)
  qed
next
  assume none: "\<not> (\<exists>d\<in>set D. rom_lt x d)"
  have "filter (zconf D x) [1..<65] = []"
  proof (rule ccontr)
    assume ne: "filter (zconf D x) [1..<65] \<noteq> []"
    then obtain p where "zconf D x p" "1 \<le> p" "p < 65" using last_filter_upt [OF ne] by blast
    then obtain d where "d \<in> set D" "rom_agree d x p" "\<not> rom_bit x p" "rom_bit d p"
      by (auto simp: zconf_iff)
    with \<open>1 \<le> p\<close> \<open>p < 65\<close> have "rom_lt x d" by (auto simp: rom_lt_iff intro: rom_agree_sym)
    with none \<open>d \<in> set D\<close> show False by blast
  qed
  then show "last_disc D x = 0" by (simp add: last_disc_def)
qed

lemma last_disc_nonzero:
  assumes "last_disc D x \<noteq> 0"
  shows "1 \<le> last_disc D x \<and> last_disc D x \<le> 64 \<and> zconf D x (last_disc D x) \<and>
         (\<forall>q. last_disc D x < q \<and> q \<le> 64 \<longrightarrow> \<not> zconf D x q)"
proof -
  have ne: "filter (zconf D x) [1..<65] \<noteq> []" using assms by (auto simp: last_disc_def)
  then have L: "last_disc D x = last (filter (zconf D x) [1..<65])" by (simp add: last_disc_def)
  show ?thesis using last_filter_upt [OF ne] unfolding L[symmetric] by auto
qed

text \<open>
  The successor of \<open>x\<close> among the devices follows \<open>x\<close> up to its deepest
  0-discrepancy and takes the 1 branch there.
\<close>

lemma successor_at_last_disc:
  assumes x: "x \<in> set D" and t: "t \<in> set D" and xt: "rom_lt x t"
    and succ: "\<forall>d\<in>set D. rom_lt x d \<longrightarrow> d = t \<or> rom_lt t d"
  shows "last_disc D x \<noteq> 0 \<and> rom_agree t x (last_disc D x) \<and> rom_bit t (last_disc D x) \<and>
         \<not> rom_bit x (last_disc D x)"
proof -
  let ?L = "last_disc D x"
  have L0: "?L \<noteq> 0" using t xt last_disc_eq_0_iff by blast
  note Lp = last_disc_nonzero [OF L0]
  obtain d0 where d0: "d0 \<in> set D" "rom_agree d0 x ?L" "\<not> rom_bit x ?L" "rom_bit d0 ?L"
    using Lp by (auto simp: zconf_iff)
  obtain q where q: "1 \<le> q" "q \<le> 64" "rom_agree x t q" "\<not> rom_bit x q" "rom_bit t q"
    using xt by (auto simp: rom_lt_iff)
  have "zconf D x q" using t q by (auto simp: zconf_iff intro: rom_agree_sym)
  then have qL: "q \<le> ?L" using Lp q(2) by (meson not_le)
  have "q = ?L"
  proof (rule ccontr)
    assume "q \<noteq> ?L"
    with qL have "q < ?L" by simp
    with d0 q have d0q: "\<not> rom_bit d0 q" by (auto simp: rom_agree_iff)
    have "rom_agree d0 t q"
      using d0(2) q(3) \<open>q < ?L\<close> by (auto simp: rom_agree_iff)
    with d0q q have "rom_lt d0 t" by (auto simp: rom_lt_iff)
    moreover have "rom_lt x d0" using d0 Lp by (auto simp: rom_lt_iff intro: rom_agree_sym)
    ultimately show False using succ d0(1) d0q q(5) rom_lt_asym by blast
  qed
  with q L0 show ?thesis by (auto intro: rom_agree_sym)
qed

text \<open>Hence every discrepancy on the way to the successor is resolved towards it.\<close>

lemma branch_towards_successor:
  assumes x: "x \<in> set D" and t: "t \<in> set D" and xt: "rom_lt x t"
    and succ: "\<forall>d\<in>set D. rom_lt x d \<longrightarrow> d = t \<or> rom_lt t d"
    and st: "rom_code st = x" "last_discrepancy st = last_disc D x"
    and p: "1 \<le> p" "p \<le> 64" and c: "conflict_at D t p"
  shows "branch st p = rom_bit t p"
proof -
  let ?L = "last_disc D x"
  note S = successor_at_last_disc [OF x t xt succ]
  consider "p < ?L" | "p = ?L" | "?L < p" by arith
  then show ?thesis
  proof cases
    case 1
    with S st p show ?thesis by (auto simp: branch_def rom_agree_iff)
  next
    case 2
    with S st show ?thesis by (simp add: branch_def)
  next
    case 3
    have "\<not> rom_bit t p"
    proof
      assume tp: "rom_bit t p"
      from c obtain d where d: "d \<in> set D" "rom_agree d t p" "rom_bit d p \<noteq> rom_bit t p"
        by (auto simp: conflict_at_def list_ex_iff)
      with tp p have "rom_lt d t" by (auto simp: rom_lt_iff)
      have "rom_agree d t (Suc ?L)" using d(2) 3 by (auto intro: rom_agree_mono)
      with S have "rom_agree d x ?L" and "rom_bit d ?L"
        by (auto simp: rom_agree_iff less_Suc_eq intro: rom_agree_trans)
      moreover have "1 \<le> ?L \<and> ?L \<le> 64" using last_disc_nonzero S by blast
      ultimately have "rom_lt x d" using S unfolding rom_lt_iff by (blast intro: rom_agree_sym)
      with succ d(1) d(3) \<open>rom_lt d t\<close> rom_lt_asym show False by blast
    qed
    with 3 st show ?thesis by (simp add: branch_def)
  qed
qed

text \<open>On the first search every discrepancy takes the 0 branch, towards the least device.\<close>

lemma branch_towards_least:
  assumes t: "t \<in> set D" and least: "\<forall>d\<in>set D. \<not> rom_lt d t"
    and st: "last_discrepancy st = 0"
    and p: "1 \<le> p" "p \<le> 64" and c: "conflict_at D t p"
  shows "branch st p = rom_bit t p"
proof -
  have "\<not> rom_bit t p"
  proof
    assume tp: "rom_bit t p"
    from c obtain d where d: "d \<in> set D" "rom_agree d t p" "rom_bit d p \<noteq> rom_bit t p"
      by (auto simp: conflict_at_def list_ex_iff)
    with tp p have "rom_lt d t" by (auto simp: rom_lt_iff)
    with least d(1) show False by blast
  qed
  with st p show ?thesis by (simp add: branch_def)
qed

lemma bus_wf_member:
  "bus_wf D \<Longrightarrow> r \<in> set D \<Longrightarrow> length r = 8 \<and> owb_crc8_bytes 0 r = 0 \<and> r ! 0 \<noteq> 0"
  by (auto simp: bus_wf_def list_all_iff rom_crc_ok_def)

lemma owb_search_target:
  assumes wf: "bus_wf (bus_devices bus)" and t: "t \<in> set (bus_devices bus)"
    and flag: "\<not> last_device_flag st" and len: "length (rom_code st) = 8"
    and br: "\<And>p. 1 \<le> p \<Longrightarrow> p \<le> 64 \<Longrightarrow> conflict_at (bus_devices bus) t p \<Longrightarrow>
               branch st p = rom_bit t p"
  shows "\<exists>st'. owb_search bus st = (st', True) \<and> search_found (bus_devices bus) t st'"
proof -
  let ?D = "bus_devices bus"
  obtain st1 m z where sb: "search_bits ?D st 1 0 = (st1, m, z)" by (cases "search_bits ?D st 1 0") auto
  then have sb1: "search_bits ?D st (Suc 0) 0 = (st1, m, z)" by simp
  have part: "?D = filter (\<lambda>d. rom_agree d t 1) ?D" by simp
  note F = search_bits_follow [OF t len _ _ part br sb]
  have tw: "length t = 8 \<and> owb_crc8_bytes 0 t = 0 \<and> t ! 0 \<noteq> 0" using bus_wf_member [OF wf t] .
  have code: "rom_code st1 = t" using F tw by (intro rom_eqI) auto
  have ne: "?D \<noteq> []" using t by auto
  have z: "z = last_disc ?D t" using F by (simp add: last_disc_def)
  let ?st' = "st1\<lparr>last_discrepancy := z, last_device_flag := (z = 0)\<rparr>"
  have "owb_search bus st = (?st', True)"
    using flag ne sb1 F code tw by (simp add: owb_search_def)
  moreover have "search_found ?D t ?st'" using code z by (simp add: search_found_def)
  ultimately show ?thesis by blast
qed

text \<open>Soundness: a code the search reports is the code of a device on the bus.\<close>

lemma owb_search_found_on_bus:
  assumes found: "owb_search bus st = (st', True)" and len: "length (rom_code st) = 8"
    and lens: "\<forall>d\<in>set (bus_devices bus). length d = 8"
  shows "rom_code st' \<in> set (bus_devices bus)"
proof -
  let ?D = "bus_devices bus"
  obtain st1 m z where sb: "search_bits ?D st 1 0 = (st1, m, z)" by (cases "search_bits ?D st 1 0") auto
  then have sb1: "search_bits ?D st (Suc 0) 0 = (st1, m, z)" by simp
  from found have ne: "?D \<noteq> []" and m: "64 < m"
    and st': "st' = st1\<lparr>last_discrepancy := z, last_device_flag := (z = 0)\<rparr>"
    by (auto simp: owb_search_def sb1 split: if_splits)
  obtain d where d: "d \<in> set ?D" and ag: "rom_agree d (rom_code st1) 65"
    and l1: "length (rom_code st1) = 8"
    using search_bits_sound [OF ne len _ _ sb m] by auto
  have "d = rom_code st1"
    using d ag l1 lens by (intro rom_eqI) (auto simp: rom_agree_iff)
  with d st' show ?thesis by simp
qed

subsection \<open>First, next, last\<close>

lemma owb_search_first_least:
  assumes wf: "bus_wf (bus_devices bus)" and t: "t \<in> set (bus_devices bus)"
    and least: "\<forall>d\<in>set (bus_devices bus). \<not> rom_lt d t"
  shows "\<exists>st'. owb_search_first bus st = (st', True) \<and> search_found (bus_devices bus) t st'"
  unfolding owb_search_first_def
  by (rule owb_search_target [OF wf t]) (simp_all add: branch_towards_least [OF t least])

lemma owb_search_first_empty:
  "bus_devices bus = [] \<Longrightarrow> \<exists>st'. owb_search_first bus st = (st', False)"
  by (simp add: owb_search_first_def owb_search_def)

lemma owb_search_next_succ:
  assumes wf: "bus_wf (bus_devices bus)" and found: "search_found (bus_devices bus) x st"
    and x: "x \<in> set (bus_devices bus)" and t: "t \<in> set (bus_devices bus)" and xt: "rom_lt x t"
    and succ: "\<forall>d\<in>set (bus_devices bus). rom_lt x d \<longrightarrow> d = t \<or> rom_lt t d"
  shows "\<exists>st'. owb_search_next bus st = (st', True) \<and> search_found (bus_devices bus) t st'"
  unfolding owb_search_next_def
proof (rule owb_search_target [OF wf t])
  have "last_disc (bus_devices bus) x \<noteq> 0" using last_disc_eq_0_iff t xt by blast
  with found show "\<not> last_device_flag st" by (simp add: search_found_def)
  show "length (rom_code st) = 8" using found bus_wf_member [OF wf x] by (simp add: search_found_def)
  show "branch st p = rom_bit t p"
    if "1 \<le> p" "p \<le> 64" "conflict_at (bus_devices bus) t p" for p
    using branch_towards_successor [OF x t xt succ _ _ that] found by (simp add: search_found_def)
qed

lemma owb_search_next_last:
  assumes found: "search_found (bus_devices bus) x st"
    and top: "\<not> (\<exists>d\<in>set (bus_devices bus). rom_lt x d)"
  shows "\<exists>st'. owb_search_next bus st = (st', False)"
proof -
  have "last_device_flag st" using found top last_disc_eq_0_iff by (simp add: search_found_def)
  then show ?thesis by (simp add: owb_search_next_def owb_search_def)
qed

subsection \<open>Verifying a ROM code\<close>

lemma branch_towards_own_code:
  assumes wf: "bus_wf D" and r: "r \<in> set D" and st: "rom_code st = r" "last_discrepancy st = 64"
    and p: "1 \<le> p" "p \<le> 64" and c: "conflict_at D r p"
  shows "branch st p = rom_bit r p"
proof -
  from c obtain d where d: "d \<in> set D" "rom_agree d r p" "rom_bit d p \<noteq> rom_bit r p"
    by (auto simp: conflict_at_def list_ex_iff)
  have "p < 57"
  proof (rule ccontr)
    assume "\<not> p < 57"
    then have "rom_agree d r 57" using d(2) by (auto intro: rom_agree_mono)
    moreover have "rom_crc_ok d" and "rom_crc_ok r"
      using wf d(1) r by (auto simp: bus_wf_def list_all_iff)
    ultimately have "d = r" using rom_crc_ok_agree_eq by blast
    with d(3) show False by simp
  qed
  with st show ?thesis by (simp add: branch_def)
qed

text \<open>The first search of an enumeration finds the least code, and the rest follow it.\<close>

lemma owb_search_first_sorted:
  assumes wf: "bus_wf (bus_devices bus)" and ne: "bus_devices bus \<noteq> []"
  obtains st x ys where "owb_search_first bus st0 = (st, True)"
    and "search_found (bus_devices bus) x st" and "rom_sort (bus_devices bus) = x # ys"
    and "sorted_wrt rom_lt (x # ys)" and "set (x # ys) \<subseteq> set (bus_devices bus)"
    and "\<forall>d\<in>set (bus_devices bus). rom_lt x d \<longrightarrow> d \<in> set ys"
proof -
  let ?D = "bus_devices bus"
  have lens: "\<forall>d\<in>set ?D. length d = 8" using bus_wf_member [OF wf] by blast
  have sorted: "sorted_wrt rom_lt (rom_sort ?D)" using lens by (rule sorted_rom_sort)
  obtain x ys where xs: "rom_sort ?D = x # ys"
    using ne set_rom_sort [of ?D] by (cases "rom_sort ?D") auto
  have x: "x \<in> set ?D" using xs set_rom_sort [of ?D] by (metis list.set_intros(1))
  have memb: "d \<in> set (x # ys)" if "d \<in> set ?D" for d
    using that xs set_rom_sort [of ?D] by simp
  have least: "\<forall>d\<in>set ?D. \<not> rom_lt d x"
    using sorted xs memb rom_lt_asym by fastforce
  obtain st where st: "owb_search_first bus st0 = (st, True)"
    and f: "search_found ?D x st"
    using owb_search_first_least [OF wf x least] by blast
  have sub: "set (x # ys) \<subseteq> set ?D" using xs set_rom_sort [of ?D] by simp
  have above: "\<forall>d\<in>set ?D. rom_lt x d \<longrightarrow> d \<in> set ys"
    using memb by fastforce
  from st f xs sorted [unfolded xs] sub above show thesis by (rule that)
qed

lemma owb_verify_rom_sound:
  assumes wf: "bus_wf (bus_devices bus)" and len: "length r = 8" and v: "owb_verify_rom bus r"
  shows "r \<in> set (bus_devices bus)"
proof -
  let ?st = "\<lparr>rom_code = r, last_discrepancy = 64, last_family_discrepancy = 0,
             last_device_flag = False\<rparr>"
  obtain st' found where s: "owb_search bus ?st = (st', found)" by fastforce
  with v have "found" and "rom_code st' = r" by (simp_all add: owb_verify_rom_def)
  moreover have "\<forall>d\<in>set (bus_devices bus). length d = 8" using bus_wf_member [OF wf] by blast
  ultimately show ?thesis
    using owb_search_found_on_bus [of bus ?st st'] s len by simp
qed

lemma owb_verify_rom_complete:
  assumes wf: "bus_wf (bus_devices bus)" and len: "length r = 8" and r: "r \<in> set (bus_devices bus)"
  shows "owb_verify_rom bus r"
proof -
  let ?st = "\<lparr>rom_code = r, last_discrepancy = 64, last_family_discrepancy = 0,
             last_device_flag = False\<rparr>"
  have "\<exists>st'. owb_search bus ?st = (st', True) \<and> search_found (bus_devices bus) r st'"
    by (rule owb_search_target [OF wf r])
       (simp_all add: len branch_towards_own_code [OF wf r])
  then show ?thesis by (auto simp: owb_verify_rom_def search_found_def)
qed

subsection \<open>Verifying a ROM code: the contract\<close>

text \<open>
  On a bus whose devices have valid ROM codes, \<open>owb_verify_rom\<close> reports a ROM code as
  present exactly when a device with that code is on the bus: the search that starts
  from the code with \<open>last_discrepancy = 64\<close> is forced down that code's branch at every
  discrepancy and finds it exactly when it is there.
\<close>

lemma owb_verify_rom_iff:
  assumes "bus_wf (bus_devices bus)" and "length r = 8"
  shows "owb_verify_rom bus r \<longleftrightarrow> r \<in> set (bus_devices bus)"
  using owb_verify_rom_sound [OF assms] owb_verify_rom_complete [OF assms] by blast

subsection \<open>Codes the search returns\<close>

text \<open>
  The search only changes the bits of the code it walks, so the code keeps its length;
  with CRC checking on, a code it returns as found has a valid CRC-8 and a non-zero
  family byte, whatever devices are on the wire.
\<close>

lemma search_bits_rom_length:
  "length (rom_code (fst (search_bits part st n lz))) = length (rom_code st)"
proof (induction part st n lz rule: search_bits.induct)
  case (1 part st n lz)
  then show ?case by (subst search_bits.simps) (simp add: Let_def)
qed

lemma owb_search_rom_length:
  "length (rom_code (fst (owb_search bus st))) = length (rom_code st)"
  using search_bits_rom_length [of "bus_devices bus" st 1 0]
  by (auto simp: owb_search_def Let_def split: prod.splits)

lemma owb_search_found_wf:
  assumes "owb_search bus st = (st', True)" and "bus_use_crc bus" and "length (rom_code st) = 8"
  shows "bus_wf [rom_code st']"
  using assms search_bits_rom_length [of "bus_devices bus" st 1 0]
  by (auto simp: owb_search_def bus_wf_def rom_crc_ok_def Let_def split: prod.splits if_splits)

end
