(* ===== verification/Examples.thy ===== *)
theory Examples
  imports DS18B20
begin

text \<open>
  Concrete buses for the witnesses of the development: the three DS18B20 sensors
  whose ROM codes appear in comments of src/main/app_main.c (lines 85 to 87), written
  least significant byte first, and a bus with nine sensors, one more than
  \<open>MAX_DEVICES\<close>. Every code has family \<open>0x28\<close> and a valid CRC-8. The lemmas
  evaluate the bus predicates and the sorted enumeration of these buses.
\<close>

definition rom_pink :: rom where
  "rom_pink = [0x28, 0xee, 0xcc, 0x87, 0x2e, 0x16, 0x01, 0x00]"

definition rom_green :: rom where
  "rom_green = [0x28, 0xee, 0x49, 0x61, 0x2c, 0x16, 0x02, 0xf4]"

definition rom_orange :: rom where
  "rom_orange = [0x28, 0xee, 0xb2, 0xa5, 0x2c, 0x16, 0x02, 0x15]"

definition three_sensors :: "rom list" where
  "three_sensors = [rom_green, rom_pink, rom_orange]"

definition nine_sensors :: "rom list" where
  "nine_sensors =
     [[0x28, 0x10, 0x20, 0x30, 0x40, 0x50, 0x60, 0xd6], [0x28, 0x11, 0x20, 0x30, 0x40, 0x50, 0x60, 0xe1],
      [0x28, 0x12, 0x20, 0x30, 0x40, 0x50, 0x60, 0xb8], [0x28, 0x13, 0x20, 0x30, 0x40, 0x50, 0x60, 0x8f],
      [0x28, 0x14, 0x20, 0x30, 0x40, 0x50, 0x60, 0x0a], [0x28, 0x15, 0x20, 0x30, 0x40, 0x50, 0x60, 0x3d],
      [0x28, 0x16, 0x20, 0x30, 0x40, 0x50, 0x60, 0x64], [0x28, 0x17, 0x20, 0x30, 0x40, 0x50, 0x60, 0x53],
      [0x28, 0x18, 0x20, 0x30, 0x40, 0x50, 0x60, 0x77]]"

definition example_bus :: "rom list \<Rightarrow> owb" where
  "example_bus devs = owb_use_crc (owb_rmt_initialize 26 devs) True"

lemma bus_devices_example_bus [simp]: "bus_devices (example_bus devs) = devs"
  by (simp add: example_bus_def owb_use_crc_def owb_rmt_initialize_def)

lemma bus_wf_three_sensors: "bus_wf three_sensors"
  by (simp add: three_sensors_def rom_pink_def rom_green_def rom_orange_def bus_wf_def
      rom_crc_ok_def crc_simps)

lemma bus_wf_nine_sensors: "bus_wf nine_sensors"
  by (simp add: nine_sensors_def bus_wf_def rom_crc_ok_def crc_simps)

lemma length_rom_sort_three_sensors: "length (rom_sort three_sensors) \<le> 3"
  using length_rom_sort_le [of three_sensors] by (simp add: three_sensors_def)

lemma length_rom_sort_nine_sensors: "length (rom_sort nine_sensors) = 9"
proof -
  have "distinct nine_sensors" by (simp add: nine_sensors_def)
  moreover have "\<forall>d\<in>set nine_sensors. length d = 8" by (simp add: nine_sensors_def)
  ultimately show ?thesis by (simp add: length_rom_sort_distinct) (simp add: nine_sensors_def)
qed

end
