(* ===== verification/RomString.thy ===== *)
theory RomString
  imports Rom
begin

text \<open>
  The text form of a ROM code that \<open>app_main\<close> prints (lines 75 to 77 and 96 to 100):
  \<open>owb_string_from_rom_code\<close> of the owb library writes the eight bytes from the last
  (the CRC) to the first (the family), two lowercase hexadecimal digits each, as the
  \<open>uint64_t\<close> literals in the comments of lines 85 to 87 show them. The theory defines
  it with a parser for such strings, and proves the round trip: the 16 characters
  determine the code.
\<close>

text \<open>\<open>sprintf(buffer, "%02x", byte)\<close>: the digits of one byte, high nibble first.\<close>

definition hex_digit :: "nat \<Rightarrow> char" where
  "hex_digit n = ''0123456789abcdef'' ! n"

definition byte_hex :: "byte \<Rightarrow> string" where
  "byte_hex b = [hex_digit (unat b div 16), hex_digit (unat b mod 16)]"

definition owb_string_from_rom_code :: "rom \<Rightarrow> string" where
  "owb_string_from_rom_code r = concat (map byte_hex (rev r))"

text \<open>Reading the text back: two digits per byte, the first byte printed last.\<close>

definition hex_value :: "char \<Rightarrow> nat option" where
  "hex_value c =
     (let k = of_char c
      in if 48 \<le> k \<and> k \<le> 57 then Some (k - 48)
         else if 97 \<le> k \<and> k \<le> 102 then Some (k - 87) else None)"

fun parse_hex_bytes :: "string \<Rightarrow> byte list option" where
  "parse_hex_bytes [] = Some []"
| "parse_hex_bytes [c] = None"
| "parse_hex_bytes (h # l # cs) =
     (case (hex_value h, hex_value l) of
        (Some a, Some b) \<Rightarrow> map_option (\<lambda>bs. word_of_nat (16 * a + b) # bs) (parse_hex_bytes cs)
      | _ \<Rightarrow> None)"

definition rom_of_string :: "string \<Rightarrow> rom option" where
  "rom_of_string s = (if length s = 16 then map_option rev (parse_hex_bytes s) else None)"

subsection \<open>Round trip\<close>

lemma hex_value_hex_digit: "n < 16 \<Longrightarrow> hex_value (hex_digit n) = Some n"
  by (auto simp: hex_value_def hex_digit_def Let_def less_Suc_eq numeral_eq_Suc)

lemma unat_byte_div_16: "unat (b :: byte) div 16 < 16"
proof -
  have "unat b < 256" using unsigned_less [of b] by simp
  then show ?thesis by simp
qed

lemma byte_hex_parse:
  "hex_value (hex_digit (unat b div 16)) = Some (unat b div 16) \<and>
   hex_value (hex_digit (unat b mod 16)) = Some (unat b mod 16) \<and>
   word_of_nat (16 * (unat b div 16) + unat b mod 16) = (b :: byte)"
  using unat_byte_div_16 [of b] by (simp add: hex_value_hex_digit)

lemma parse_hex_bytes_concat: "parse_hex_bytes (concat (map byte_hex bs)) = Some bs"
  by (induction bs) (simp_all add: byte_hex_def byte_hex_parse)

lemma length_concat_byte_hex: "length (concat (map byte_hex bs)) = 2 * length bs"
  by (induction bs) (simp_all add: byte_hex_def)

lemma length_owb_string_from_rom_code: "length (owb_string_from_rom_code r) = 2 * length r"
  by (simp add: owb_string_from_rom_code_def length_concat_byte_hex)

lemma rom_of_string_roundtrip:
  "length r = 8 \<Longrightarrow> rom_of_string (owb_string_from_rom_code r) = Some r"
  by (simp add: rom_of_string_def length_owb_string_from_rom_code [unfolded owb_string_from_rom_code_def]
      parse_hex_bytes_concat owb_string_from_rom_code_def)

text \<open>The pink sensor of line 85, \<open>0x0001162e87ccee28\<close>.\<close>

lemma owb_string_pink: "owb_string_from_rom_code [0x28, 0xee, 0xcc, 0x87, 0x2e, 0x16, 0x01, 0x00] = ''0001162e87ccee28''"
  by (simp add: owb_string_from_rom_code_def byte_hex_def hex_digit_def)

end
