(* ===== verification/AppMain.thy ===== *)
theory AppMain
  imports Examples RomString
begin

text \<open>
  The application, src/main/app_main.c, function \<open>app_main\<close>: its configuration
  macros, the enumeration loop (lines 66 to 83), the check of a known ROM code (lines
  90 to 100), the creation of one handle per device (lines 102 to 133) and the
  sampling loop (lines 147 to 188). Each loop is a recursive function; the whole
  program is a step relation on the application state. Undefined behaviour of the C
  code (a write past the end of \<open>device_rom_codes[MAX_DEVICES]\<close>, a NULL handle)
  is an error value.
\<close>

unbundle bit_operations_syntax

subsection \<open>Configuration\<close>

definition MAX_DEVICES :: nat where
  "MAX_DEVICES = 8"

definition DS18B20_RESOLUTION :: ds18b20_resolution where
  "DS18B20_RESOLUTION = DS18B20_RESOLUTION_12_BIT"

definition SAMPLE_PERIOD :: nat where
  "SAMPLE_PERIOD = 1000"

text \<open>\<open>portTICK_PERIOD_MS\<close> of FreeRTOS with the ESP-IDF default tick rate of 100 Hz.\<close>

definition portTICK_PERIOD_MS :: nat where
  "portTICK_PERIOD_MS = 10"

text \<open>The GPIO the code passes to \<open>owb_rmt_initialize\<close> (line 59), not the
  configured \<open>GPIO_DS18B20_0\<close>.\<close>

definition app_gpio_num :: nat where
  "app_gpio_num = 26"

datatype app_error = Device_array_overflow | Null_device_handle

subsection \<open>Finding the devices\<close>

text \<open>
  \<open>while (found) { device_rom_codes[num_devices] = search_state.rom_code;
  ++num_devices; owb_search_next(owb, &search_state, &found); }\<close>: nothing bounds
  \<open>num_devices\<close>, so a ninth device is written past the end of the array.
\<close>

function app_find_loop ::
  "owb \<Rightarrow> search_state \<Rightarrow> bool \<Rightarrow> rom list \<Rightarrow> nat \<Rightarrow> app_error + rom list \<times> nat" where
  "app_find_loop bus st found roms n =
     (if \<not> found then Inr (roms, n)
      else if MAX_DEVICES \<le> n then Inl Device_array_overflow
      else case owb_search_next bus st of
             (st', found') \<Rightarrow> app_find_loop bus st' found' (roms[n := rom_code st]) (Suc n))"
  by pat_completeness auto
termination
  by (relation "measure (\<lambda>(bus, st, found, roms, n). MAX_DEVICES - n)") auto

declare app_find_loop.simps [simp del]

definition search_state_zero :: search_state where
  "search_state_zero = \<lparr>rom_code = replicate 8 0, last_discrepancy = 0,
     last_family_discrepancy = 0, last_device_flag = False\<rparr>"

definition app_find_devices :: "owb \<Rightarrow> app_error + rom list \<times> nat" where
  "app_find_devices bus =
     (case owb_search_first bus search_state_zero of
        (st, found) \<Rightarrow> app_find_loop bus st found (replicate MAX_DEVICES (replicate 8 0)) 0)"

text \<open>
  The same loop without the array: what \<open>while (found)\<close> collects when nothing bounds
  it, as a function that may not return (\<open>None\<close>) because nothing in the loop itself
  bounds the number of iterations.
\<close>

partial_function (option) app_search_all ::
  "owb \<Rightarrow> search_state \<Rightarrow> bool \<Rightarrow> rom list \<Rightarrow> rom list option" where
  "app_search_all bus st found acc =
     (if \<not> found then Some acc
      else case owb_search_next bus st of
             (st', found') \<Rightarrow> app_search_all bus st' found' (acc @ [rom_code st]))"

definition app_enumerate :: "owb \<Rightarrow> rom list option" where
  "app_enumerate bus =
     (case owb_search_first bus search_state_zero of (st, found) \<Rightarrow> app_search_all bus st found [])"

subsection \<open>The known device\<close>

text \<open>The ROM code of lines 91 to 95, least significant byte first.\<close>

definition known_device :: rom where
  "known_device = [0x28, 0xee, 0xcc, 0x87, 0x2e, 0x16, 0x01, 0x00]"

definition app_check_known :: "owb \<Rightarrow> bool" where
  "app_check_known bus = owb_verify_rom bus known_device"

subsection \<open>Creating the handles\<close>

text \<open>
  The body of \<open>for (int i = 0; i < num_devices; ++i)\<close>, lines 117 to 132: a fresh
  handle, bound in solo mode when there is only one device and to the device's ROM code
  otherwise, with CRC checking of readings on and the application's resolution.
\<close>

definition app_init_handle :: "rom list \<Rightarrow> nat \<Rightarrow> nat \<Rightarrow> ds18b20_info" where
  "app_init_handle roms num_devs i =
     (let info0 = ds18b20_malloc;
          info1 = (if num_devs = 1 then ds18b20_init_solo info0 else ds18b20_init info0 (roms ! i));
          info2 = ds18b20_use_crc info1 True
      in fst (ds18b20_set_resolution info2 DS18B20_RESOLUTION))"

text \<open>The loop of lines 114 to 133, storing each handle in \<open>devices[i]\<close>.\<close>

function app_init_loop ::
  "rom list \<Rightarrow> nat \<Rightarrow> nat \<Rightarrow> ds18b20_info option list \<Rightarrow> ds18b20_info option list" where
  "app_init_loop roms num_devs i devs =
     (if i < num_devs
      then app_init_loop roms num_devs (Suc i) (devs[i := Some (app_init_handle roms num_devs i)])
      else devs)"
  by pat_completeness auto
termination
  by (relation "measure (\<lambda>(roms, num_devs, i, devs). num_devs - i)") auto

declare app_init_loop.simps [simp del]

text \<open>
  The clean-up loop of lines 190 to 196: \<open>ds18b20_free(&devices[i])\<close> for the first
  \<open>num_devices\<close> slots.
\<close>

function app_free_loop ::
  "nat \<Rightarrow> nat \<Rightarrow> ds18b20_info option list \<Rightarrow> ds18b20_info option list" where
  "app_free_loop num_devs i devs =
     (if i < num_devs then app_free_loop num_devs (Suc i) (devs[i := ds18b20_free (devs ! i)])
      else devs)"
  by pat_completeness auto
termination
  by (relation "measure (\<lambda>(num_devs, i, devs). num_devs - i)") auto

declare app_free_loop.simps [simp del]

text \<open>The handle the loop creates for device \<open>i\<close> of \<open>num_devs\<close>.\<close>

definition app_handle :: "rom list \<Rightarrow> nat \<Rightarrow> nat \<Rightarrow> ds18b20_info" where
  "app_handle roms num_devs i =
     \<lparr>ds_init = True, ds_solo = (num_devs = 1), ds_use_crc = True,
      ds_rom_code = (if num_devs = 1 then replicate 8 0 else roms ! i),
      ds_resolution = DS18B20_RESOLUTION_12_BIT\<rparr>"

subsection \<open>The application state\<close>

datatype app_phase = Start | Sampling | Returned | Undefined app_error

text \<open>
  The locals of \<open>app_main\<close> that live across the sampling loop, the global bus, the
  devices on the wire (fixed: no hot-plug), the time since boot in ticks (the tick
  counter \<open>xTaskGetTickCount()\<close> is its value modulo \<open>2^32\<close>) and everything the
  program has sent to the bus, the scheduler and the console.
\<close>

record app_state =
  phase :: app_phase
  wire_devices :: "rom list"
  app_bus :: owb
  device_rom_codes :: "rom list"
  num_devices :: nat
  devices :: "ds18b20_info option list"
  crc_errors :: "nat list"
  sample_count :: nat
  clock :: nat
  app_events :: "event list"

definition xTaskGetTickCount :: "app_state \<Rightarrow> tick" where
  "xTaskGetTickCount s = word_of_nat (clock s)"

text \<open>
  What the environment decides during one sample: the bytes each device answers to
  READ-SCRATCHPAD, the ticks spent reading and printing after the conversion wait, and
  the ticks that pass between the two tick readings of lines 183 and 185.
\<close>

record sample_env =
  env_scratchpad :: "nat \<Rightarrow> byte list"
  env_busy :: nat
  env_race :: nat

subsection \<open>One sample\<close>

text \<open>Lines 165 to 168: read every device, in index order, before printing anything.\<close>

fun app_read_temps ::
  "ds18b20_info option list \<Rightarrow> (nat \<Rightarrow> byte list) \<Rightarrow> nat \<Rightarrow> app_error + event list \<times> real list" where
  "app_read_temps devs sp 0 = Inr ([], [])"
| "app_read_temps devs sp (Suc i) =
     (case app_read_temps devs sp i of
        Inl e \<Rightarrow> Inl e
      | Inr (evs, temps) \<Rightarrow>
          (case devs ! i of
             None \<Rightarrow> Inl Null_device_handle
           | Some d \<Rightarrow> (case ds18b20_read_temp d (sp i) of
                          (ev, t) \<Rightarrow> Inr (evs @ ev, temps @ [t]))))"

text \<open>
  Lines 172 to 180: count an error for every invalid reading and print the device's
  line with its cumulative count.
\<close>

fun app_count_loop :: "nat \<Rightarrow> real list \<Rightarrow> nat list \<Rightarrow> nat list \<times> event list" where
  "app_count_loop i [] errs = (errs, [])"
| "app_count_loop i (t # ts) errs =
     (let errs' = (if t = DS18B20_INVALID_READING then errs[i := Suc (errs ! i)] else errs)
      in case app_count_loop (Suc i) ts errs' of
           (errs'', evs) \<Rightarrow> (errs'', PrintReading i t (errs' ! i) # evs))"

text \<open>
  Lines 183 to 186, on the two tick readings: when less than a period has passed
  since \<open>start_ticks\<close>, sleep for the rest of the period, computed from a second
  reading of the tick counter. All arithmetic is on \<open>TickType_t\<close>.
\<close>

definition period_ticks :: tick where
  "period_ticks = word_of_nat (SAMPLE_PERIOD div portTICK_PERIOD_MS)"

definition app_period_delay :: "tick \<Rightarrow> tick \<Rightarrow> tick \<Rightarrow> tick option" where
  "app_period_delay start_ticks now1 now2 =
     (if now1 - start_ticks < period_ticks then Some (period_ticks - (now2 - start_ticks)) else None)"

text \<open>
  Lines 154 to 186. The result of \<open>ds18b20_convert_all\<close> is ignored, as in the code;
  the conversion wait uses the resolution of \<open>devices[0]\<close>.
\<close>

definition app_sample :: "app_state \<Rightarrow> sample_env \<Rightarrow> app_error + app_state" where
  "app_sample s env =
     (let start_ticks = xTaskGetTickCount s;
          ev_conv = fst (ds18b20_convert_all (app_bus s))
      in case devices s ! 0 of
           None \<Rightarrow> Inl Null_device_handle
         | Some d0 \<Rightarrow>
             let w = ds18b20_wait_ticks portTICK_PERIOD_MS d0
             in case app_read_temps (devices s) (env_scratchpad env) (num_devices s) of
                  Inl e \<Rightarrow> Inl e
                | Inr (ev_read, temps) \<Rightarrow>
                    let count = Suc (sample_count s);
                        errs_ev = app_count_loop 0 temps (crc_errors s);
                        c1 = clock s + unat w + env_busy env;
                        c2 = c1 + env_race env;
                        delay = app_period_delay start_ticks (word_of_nat c1) (word_of_nat c2)
                    in Inr (s\<lparr>crc_errors := fst errs_ev, sample_count := count,
                              app_events := app_events s @ ev_conv @ [TaskDelay w] @ ev_read @
                                PrintSample count # snd errs_ev @
                                (case delay of None \<Rightarrow> [] | Some d \<Rightarrow> [TaskDelay d]),
                              clock := (case delay of None \<Rightarrow> c1 | Some d \<Rightarrow> c2 + unat d)\<rparr>))"

subsection \<open>The program\<close>

text \<open>
  Lines 51 to 150 up to the sampling loop: wait two seconds, create the bus on GPIO 26
  with ROM CRC checking, enumerate, report the known device, create the handles. With
  no device the loop is skipped, the clean-up loop of lines 190 to 196 runs and
  \<open>app_main\<close> returns. It prints
  \<open>Initializing in 2 seconds\<close> (line 51) before the settle delay and \<open>Find devices:\<close>
  (line 67) before the search. The enumeration
  loop prints, before storing it, the code it stores (line 77), so its output is one line
  per entry of the array, in order; then come \<open>Found N devices\<close> (line 83) and the
  known device's line (line 100); the handle loop then prints
  \<open>Single device optimisations enabled\<close> (line 124) in its one iteration when exactly one
  device was found. On the overflow the run ends in undefined behaviour
  and its output is not modelled.
\<close>

definition app_setup :: "app_state \<Rightarrow> app_error + app_state" where
  "app_setup s =
     (let settle = word_of_nat (2000 div portTICK_PERIOD_MS);
          bus = owb_use_crc (owb_rmt_initialize app_gpio_num (wire_devices s)) True
      in case app_find_devices bus of
           Inl e \<Rightarrow> Inl e
         | Inr (roms, n) \<Rightarrow>
             Inr (s\<lparr>phase := (if 0 < n then Sampling else Returned), app_bus := bus,
                    device_rom_codes := roms, num_devices := n,
                    devices := (let devs = app_init_loop roms n 0 (replicate MAX_DEVICES None)
                                in if 0 < n then devs else app_free_loop n 0 devs),
                    crc_errors := replicate MAX_DEVICES 0, sample_count := 0,
                    clock := clock s + unat settle,
                    app_events := app_events s @
                 [PrintText ''Initializing in 2 seconds'', TaskDelay settle, PrintText ''Find devices:''] @
                 map (\<lambda>i. PrintRom i (owb_string_from_rom_code (roms ! i))) [0..<n] @
                 [PrintFound n,
                  PrintPresent (owb_string_from_rom_code known_device) (app_check_known bus)] @
                 (if n = 1 then [PrintText ''Single device optimisations enabled''] else [])\<rparr>))"

definition app_boot :: "rom list \<Rightarrow> nat \<Rightarrow> app_state" where
  "app_boot devs t0 =
     \<lparr>phase = Start, wire_devices = devs,
      app_bus = \<lparr>bus_gpio = 0, bus_use_crc = False, bus_devices = []\<rparr>,
      device_rom_codes = replicate MAX_DEVICES (replicate 8 0), num_devices = 0,
      devices = replicate MAX_DEVICES None, crc_errors = replicate MAX_DEVICES 0,
      sample_count = 0, clock = t0, app_events = []\<rparr>"

text \<open>
  One step of the program: the setup, or one iteration of \<open>while (1)\<close> under some
  environment. Undefined behaviour ends the run in an \<open>Undefined\<close> state.
\<close>

inductive app_step :: "app_state \<Rightarrow> app_state \<Rightarrow> bool" where
  do_setup: "phase s = Start \<Longrightarrow> app_setup s = Inr s' \<Longrightarrow> app_step s s'"
| setup_fault: "phase s = Start \<Longrightarrow> app_setup s = Inl e \<Longrightarrow> app_step s (s\<lparr>phase := Undefined e\<rparr>)"
| do_sample: "phase s = Sampling \<Longrightarrow> app_sample s env = Inr s' \<Longrightarrow> app_step s s'"
| sample_fault: "phase s = Sampling \<Longrightarrow> app_sample s env = Inl e \<Longrightarrow>
    app_step s (s\<lparr>phase := Undefined e\<rparr>)"

inductive app_reachable :: "app_state \<Rightarrow> bool" where
  boot: "app_reachable (app_boot devs t0)"
| step: "app_reachable s \<Longrightarrow> app_step s s' \<Longrightarrow> app_reachable s'"

subsection \<open>Concrete states\<close>

text \<open>
  Sampling states for the witnesses: the sensors of \<open>Examples\<close> with their handles as
  the setup creates them, and the scratchpad of a DS18B20 at its power-on reading of
  85 degrees (with its CRC), or with a corrupted CRC byte.
\<close>

definition example_state :: "rom list \<Rightarrow> nat \<Rightarrow> app_state" where
  "example_state devs c =
     \<lparr>phase = Sampling, wire_devices = devs, app_bus = example_bus devs,
      device_rom_codes = devs @ replicate (MAX_DEVICES - length devs) (replicate 8 0),
      num_devices = length devs,
      devices = map (\<lambda>i. Some (app_handle devs (length devs) i)) [0..<length devs] @
                replicate (MAX_DEVICES - length devs) None,
      crc_errors = replicate MAX_DEVICES 0, sample_count = 0, clock = c, app_events = []\<rparr>"

definition scratchpad_85 :: "byte list" where
  "scratchpad_85 = [0x50, 0x05, 0x4B, 0x46, 0x7F, 0xFF, 0x0C, 0x10, 0x1C]"

definition scratchpad_bad :: "byte list" where
  "scratchpad_bad = [0x50, 0x05, 0x4B, 0x46, 0x7F, 0xFF, 0x0C, 0x10, 0x1D]"

definition example_env :: "(nat \<Rightarrow> byte list) \<Rightarrow> nat \<Rightarrow> nat \<Rightarrow> sample_env" where
  "example_env sp busy race = \<lparr>env_scratchpad = sp, env_busy = busy, env_race = race\<rparr>"

inductive_cases app_step_cases: "app_step s s'"

subsection \<open>Enumeration\<close>

lemma app_search_all_prefix:
  assumes "app_search_all bus st found acc = Some xs"
  shows "\<exists>zs. xs = acc @ zs"
proof (rule app_search_all.raw_induct [where P = "\<lambda>bus st found acc xs. \<exists>zs. xs = acc @ zs",
    OF _ assms])
  fix f :: "owb \<Rightarrow> search_state \<Rightarrow> bool \<Rightarrow> rom list \<Rightarrow> rom list option"
    and bus st found acc xs
  assume IH: "\<And>bus st found acc ys. f bus st found acc = Some ys \<Longrightarrow> \<exists>zs. ys = acc @ zs"
    and body: "(if \<not> found then Some acc
      else case owb_search_next bus st of
             (st', found') \<Rightarrow> f bus st' found' (acc @ [rom_code st])) = Some xs"
  show "\<exists>zs. xs = acc @ zs"
  proof (cases found)
    case False
    with body show ?thesis by simp
  next
    case True
    obtain st' found' where nx: "owb_search_next bus st = (st', found')" by fastforce
    with body True have "f bus st' found' (acc @ [rom_code st]) = Some xs" by simp
    then obtain zs where "xs = (acc @ [rom_code st]) @ zs" using IH by blast
    then show ?thesis by simp
  qed
qed

lemma app_find_loop_search_all:
  assumes "app_search_all bus st found acc = Some xs" and "length roms = MAX_DEVICES"
    and "n \<le> MAX_DEVICES"
  shows "\<exists>ys. xs = acc @ ys \<and> app_find_loop bus st found roms n =
    (if n + length ys \<le> MAX_DEVICES
     then Inr (take n roms @ ys @ drop (n + length ys) roms, n + length ys)
     else Inl Device_array_overflow)"
  using assms
proof (induction bus st found roms n arbitrary: acc rule: app_find_loop.induct)
  case (1 bus st found roms n)
  show ?case
  proof (cases found)
    case False
    with "1.prems"(1) have "xs = acc" by (simp add: app_search_all.simps)
    with False "1.prems"(3) show ?thesis by (subst app_find_loop.simps) simp
  next
    case True
    obtain st' found' where nx: "owb_search_next bus st = (st', found')" by fastforce
    with True "1.prems"(1) have r: "app_search_all bus st' found' (acc @ [rom_code st]) = Some xs"
      by (simp add: app_search_all.simps)
    show ?thesis
    proof (cases "MAX_DEVICES \<le> n")
      case True
      obtain zs where "xs = (acc @ [rom_code st]) @ zs" using app_search_all_prefix [OF r] by blast
      with True \<open>found\<close> "1.prems"(3) show ?thesis
        by (intro exI [of _ "rom_code st # zs"]) (subst app_find_loop.simps, simp)
    next
      case False
      have len: "length (roms[n := rom_code st]) = MAX_DEVICES" using "1.prems"(2) by simp
      obtain ys where ys: "xs = (acc @ [rom_code st]) @ ys"
        and IH: "app_find_loop bus st' found' (roms[n := rom_code st]) (Suc n) =
          (if Suc n + length ys \<le> MAX_DEVICES
           then Inr (take (Suc n) (roms[n := rom_code st]) @ ys @
                       drop (Suc n + length ys) (roms[n := rom_code st]), Suc n + length ys)
           else Inl Device_array_overflow)"
        using "1.IH" [OF _ _ nx [symmetric] r len] \<open>found\<close> False by auto
      have n: "n < length roms" using False "1.prems"(2) by simp
      have "take (Suc n) (roms[n := rom_code st]) = take n roms @ [rom_code st]"
        using n by (simp add: upd_conv_take_nth_drop)
      moreover have "app_find_loop bus st found roms n =
          app_find_loop bus st' found' (roms[n := rom_code st]) (Suc n)"
        using \<open>found\<close> False nx by (subst app_find_loop.simps) simp
      ultimately show ?thesis using IH ys
        by (intro exI [of _ "rom_code st # ys"]) simp
    qed
  qed
qed

lemma app_find_loop_search_all_None:
  assumes "app_search_all bus st found acc = None"
  shows "app_find_loop bus st found roms n = Inl Device_array_overflow"
  using assms
proof (induction bus st found roms n arbitrary: acc rule: app_find_loop.induct)
  case (1 bus st found roms n)
  show ?case
  proof (cases found)
    case False
    with "1.prems" show ?thesis by (simp add: app_search_all.simps)
  next
    case True
    obtain st' found' where nx: "owb_search_next bus st = (st', found')" by fastforce
    with True "1.prems" have r: "app_search_all bus st' found' (acc @ [rom_code st]) = None"
      by (simp add: app_search_all.simps)
    show ?thesis
    proof (cases "MAX_DEVICES \<le> n")
      case True
      with \<open>found\<close> show ?thesis by (subst app_find_loop.simps) simp
    next
      case False
      have "app_find_loop bus st found roms n =
          app_find_loop bus st' found' (roms[n := rom_code st]) (Suc n)"
        using \<open>found\<close> False nx by (subst app_find_loop.simps) simp
      with "1.IH" [OF _ _ nx [symmetric] r] \<open>found\<close> False show ?thesis by simp
    qed
  qed
qed

lemma app_search_all_suffix:
  assumes wf: "bus_wf (bus_devices bus)"
    and sorted: "sorted_wrt rom_lt (x # ys)" and sub: "set (x # ys) \<subseteq> set (bus_devices bus)"
    and above: "\<forall>d\<in>set (bus_devices bus). rom_lt x d \<longrightarrow> d \<in> set ys"
    and found: "search_found (bus_devices bus) x st"
  shows "app_search_all bus st True acc = Some (acc @ x # ys)"
  using sorted sub above found
proof (induction ys arbitrary: x st acc)
  case Nil
  obtain st' where "owb_search_next bus st = (st', False)"
    using owb_search_next_last [OF Nil.prems(4)] Nil.prems(3) by auto
  moreover have "rom_code st = x" using Nil.prems(4) by (simp add: search_found_def)
  ultimately show ?case by (simp add: app_search_all.simps [of bus st] app_search_all.simps [of bus st'])
next
  case (Cons y ys)
  let ?D = "bus_devices bus"
  have x: "x \<in> set ?D" and y: "y \<in> set ?D" using Cons.prems(2) by auto
  have xy: "rom_lt x y" using Cons.prems(1) by simp
  have succ: "\<forall>d\<in>set ?D. rom_lt x d \<longrightarrow> d = y \<or> rom_lt y d"
    using Cons.prems(1,3) by auto
  obtain st' where st': "owb_search_next bus st = (st', True)" and f': "search_found ?D y st'"
    using owb_search_next_succ [OF wf Cons.prems(4) x y xy succ] by blast
  have above': "\<forall>d\<in>set ?D. rom_lt y d \<longrightarrow> d \<in> set ys"
  proof (intro ballI impI)
    fix d assume d: "d \<in> set ?D" "rom_lt y d"
    from xy d(2) have "rom_lt x d" by (rule rom_lt_trans)
    with d Cons.prems(3) have "d \<in> set (y # ys)" by blast
    with d(2) show "d \<in> set ys" by auto
  qed
  have "app_search_all bus st' True (acc @ [x]) = Some ((acc @ [x]) @ y # ys)"
    using Cons.prems(1,2) above' f' by (intro Cons.IH) auto
  moreover have "rom_code st = x" using Cons.prems(4) by (simp add: search_found_def)
  ultimately show ?case using st' by (simp add: app_search_all.simps [of bus st])
qed

lemma app_enumerate_eq:
  assumes wf: "bus_wf (bus_devices bus)"
  shows "app_enumerate bus = Some (rom_sort (bus_devices bus))"
proof (cases "bus_devices bus = []")
  case True
  then obtain st where "owb_search_first bus search_state_zero = (st, False)"
    using owb_search_first_empty by blast
  with True show ?thesis by (simp add: app_enumerate_def app_search_all.simps rom_sort_def)
next
  case False
  then obtain st x ys where st: "owb_search_first bus search_state_zero = (st, True)"
    and f: "search_found (bus_devices bus) x st" and xs: "rom_sort (bus_devices bus) = x # ys"
    and s: "sorted_wrt rom_lt (x # ys)" and sub: "set (x # ys) \<subseteq> set (bus_devices bus)"
    and above: "\<forall>d\<in>set (bus_devices bus). rom_lt x d \<longrightarrow> d \<in> set ys"
    using owb_search_first_sorted [OF wf] by blast
  from app_search_all_suffix [OF wf s sub above f, of "[]"] st xs show ?thesis
    by (simp add: app_enumerate_def)
qed

text \<open>What the enumeration loop leaves in \<open>device_rom_codes\<close> and \<open>num_devices\<close>.\<close>

lemma app_find_devices_eq:
  assumes wf: "bus_wf (bus_devices bus)"
  shows "app_find_devices bus =
    (if length (rom_sort (bus_devices bus)) \<le> MAX_DEVICES
     then Inr (rom_sort (bus_devices bus) @
               replicate (MAX_DEVICES - length (rom_sort (bus_devices bus))) (replicate 8 0),
               length (rom_sort (bus_devices bus)))
     else Inl Device_array_overflow)"
proof -
  obtain st found where st: "owb_search_first bus search_state_zero = (st, found)" by fastforce
  with app_enumerate_eq [OF wf]
  have "app_search_all bus st found [] = Some (rom_sort (bus_devices bus))"
    by (simp add: app_enumerate_def)
  from app_find_loop_search_all [OF this, of "replicate MAX_DEVICES (replicate 8 0)" 0] st
  show ?thesis by (simp add: app_find_devices_def)
qed

text \<open>
  C1. On a bus of at most \<open>MAX_DEVICES\<close> sensors with valid ROM codes, the
  enumeration loop of \<open>app_main\<close> stores every sensor's ROM code exactly once, in the
  order of the 1-Wire search (ascending wire bits), at the front of
  \<open>device_rom_codes\<close>, leaves the rest of the array zero, and sets \<open>num_devices\<close>
  to the number of sensors.
\<close>

theorem app_find_devices_sorted:
  assumes "bus_wf (bus_devices bus)" and "length (rom_sort (bus_devices bus)) \<le> MAX_DEVICES"
  shows "app_find_devices bus =
    Inr (rom_sort (bus_devices bus) @
         replicate (MAX_DEVICES - length (rom_sort (bus_devices bus))) (replicate 8 0),
         length (rom_sort (bus_devices bus)))"
  using app_find_devices_eq [OF assms(1)] assms(2) by simp

theorem app_find_devices_sorted_witness:
  "app_find_devices (example_bus three_sensors) =
    Inr (rom_sort three_sensors @
         replicate (MAX_DEVICES - length (rom_sort three_sensors)) (replicate 8 0),
         length (rom_sort three_sensors))"
proof -
  have "length (rom_sort three_sensors) \<le> MAX_DEVICES"
    using length_rom_sort_three_sensors by (simp add: MAX_DEVICES_def)
  then show ?thesis
    using app_find_devices_sorted [of "example_bus three_sensors"] bus_wf_three_sensors by simp
qed

text \<open>
  C2. With more than \<open>MAX_DEVICES\<close> sensors on the bus the enumeration loop does
  not stop at the end of \<open>device_rom_codes\<close>: after storing eight codes the search
  still reports a device and the loop writes the ninth code past the end of the array.
\<close>

theorem app_find_devices_overflow:
  assumes "bus_wf (bus_devices bus)" and "MAX_DEVICES < length (rom_sort (bus_devices bus))"
  shows "app_find_devices bus = Inl Device_array_overflow"
  using app_find_devices_eq [OF assms(1)] assms(2) by simp

theorem app_find_devices_overflow_witness:
  "app_find_devices (example_bus nine_sensors) = Inl Device_array_overflow"
proof -
  have "MAX_DEVICES < length (rom_sort nine_sensors)"
    using length_rom_sort_nine_sensors by (simp add: MAX_DEVICES_def)
  then show ?thesis
    using app_find_devices_overflow [of "example_bus nine_sensors"] bus_wf_nine_sensors by simp
qed

text \<open>
  C22. The loop \<open>while (found)\<close> of lines 73 to 81 terminates on every bus of sensors with
  valid ROM codes: run without the array, it returns after exactly one iteration per
  sensor, having collected every sensor's code once.
\<close>

theorem app_enumerate_terminates:
  assumes "bus_wf (bus_devices bus)"
  shows "\<exists>xs. app_enumerate bus = Some xs \<and> length xs = card (set (bus_devices bus)) \<and>
    set xs = set (bus_devices bus) \<and> distinct xs"
proof -
  have "\<forall>d\<in>set (bus_devices bus). length d = 8" using bus_wf_member [OF assms] by blast
  then have d: "distinct (rom_sort (bus_devices bus))"
    by (intro sorted_wrt_rom_lt_distinct sorted_rom_sort)
  then have "length (rom_sort (bus_devices bus)) = card (set (bus_devices bus))"
    by (simp add: distinct_card [symmetric])
  with d app_enumerate_eq [OF assms] show ?thesis by simp
qed

theorem app_enumerate_terminates_witness:
  "\<exists>xs. app_enumerate (example_bus nine_sensors) = Some xs \<and>
     length xs = card (set nine_sensors)"
  using app_enumerate_terminates [of "example_bus nine_sensors"] bus_wf_nine_sensors by auto

text \<open>
  C23. On every bus, whatever ROM codes and CRC errors it has, the enumeration of
  \<open>app_main\<close> with its array of \<open>MAX_DEVICES\<close> codes is the unbounded loop followed by
  the bound: it stores what the unbounded loop collects when that is at most
  \<open>MAX_DEVICES\<close> codes, and writes past the array exactly when the unbounded loop
  collects more or never stops.
\<close>

theorem app_find_devices_enumerate:
  "app_find_devices bus =
     (case app_enumerate bus of
        None \<Rightarrow> Inl Device_array_overflow
      | Some xs \<Rightarrow>
          if length xs \<le> MAX_DEVICES
          then Inr (xs @ replicate (MAX_DEVICES - length xs) (replicate 8 0), length xs)
          else Inl Device_array_overflow)"
proof -
  obtain st found where st: "owb_search_first bus search_state_zero = (st, found)" by fastforce
  show ?thesis
  proof (cases "app_search_all bus st found []")
    case None
    with st app_find_loop_search_all_None [OF None] show ?thesis
      by (simp add: app_find_devices_def app_enumerate_def)
  next
    case (Some xs)
    from app_find_loop_search_all [OF Some, of "replicate MAX_DEVICES (replicate 8 0)" 0] st Some
    show ?thesis by (simp add: app_find_devices_def app_enumerate_def)
  qed
qed

subsection \<open>The known device and the handles\<close>

lemma rom_crc_ok_known_device: "rom_crc_ok known_device"
  by (simp add: known_device_def rom_crc_ok_def crc_simps)

lemma known_device_unique:
  assumes "rom_crc_ok r" and "take 7 r = [0x28, 0xee, 0xcc, 0x87, 0x2e, 0x16, 0x01]"
  shows "r = known_device"
proof -
  have "length r = 8" using assms(1) by (simp add: rom_crc_ok_def)
  then obtain x0 x1 x2 x3 x4 x5 x6 x7 where r: "r = [x0, x1, x2, x3, x4, x5, x6, x7]"
    by (rule rom_length_8_cases)
  with assms(2) have pre: "[x0, x1, x2, x3, x4, x5, x6] = [0x28, 0xee, 0xcc, 0x87, 0x2e, 0x16, 0x01]"
    by simp
  from assms(1) r have "owb_crc8_bytes 0 ([x0, x1, x2, x3, x4, x5, x6] @ [x7]) = 0"
    by (simp add: rom_crc_ok_def)
  then have "x7 = owb_crc8_bytes 0 [0x28, 0xee, 0xcc, 0x87, 0x2e, 0x16, 0x01]"
    by (simp only: owb_crc8_bytes_snoc_eq_0_iff pre)
  then have "x7 = 0" by (simp add: crc_simps)
  with r pre show ?thesis by (simp add: known_device_def)
qed

lemma app_init_loop_nth:
  assumes "num_devs \<le> length devs"
  shows "length (app_init_loop roms num_devs i devs) = length devs \<and>
    (\<forall>j<length devs. app_init_loop roms num_devs i devs ! j =
       (if i \<le> j \<and> j < num_devs then Some (app_init_handle roms num_devs j) else devs ! j))"
  using assms
proof (induction roms num_devs i devs rule: app_init_loop.induct)
  case (1 roms num_devs i devs)
  show ?case
  proof (cases "i < num_devs")
    case False
    then show ?thesis by (auto simp: app_init_loop.simps [of roms num_devs i devs])
  next
    case True
    let ?devs2 = "devs[i := Some (app_init_handle roms num_devs i)]"
    have eq: "app_init_loop roms num_devs i devs = app_init_loop roms num_devs (Suc i) ?devs2"
      using True by (simp add: app_init_loop.simps [of roms num_devs i devs])
    have IH: "length (app_init_loop roms num_devs (Suc i) ?devs2) = length devs \<and>
      (\<forall>j<length devs. app_init_loop roms num_devs (Suc i) ?devs2 ! j =
         (if Suc i \<le> j \<and> j < num_devs then Some (app_init_handle roms num_devs j) else ?devs2 ! j))"
      using "1.IH" [OF True] "1.prems" by simp
    have "\<forall>j<length devs. app_init_loop roms num_devs (Suc i) ?devs2 ! j =
       (if i \<le> j \<and> j < num_devs then Some (app_init_handle roms num_devs j) else devs ! j)"
    proof (intro allI impI)
      fix j assume j: "j < length devs"
      show "app_init_loop roms num_devs (Suc i) ?devs2 ! j =
        (if i \<le> j \<and> j < num_devs then Some (app_init_handle roms num_devs j) else devs ! j)"
        using IH j True by (cases "j = i") (auto simp: nth_list_update)
    qed
    with IH show ?thesis unfolding eq by simp
  qed
qed

text \<open>The handle the loop body creates, field by field.\<close>

lemma app_init_handle_eq: "app_init_handle roms num_devs i = app_handle roms num_devs i"
  by (simp add: app_init_handle_def app_handle_def ds18b20_set_resolution_def ds18b20_use_crc_def
      ds18b20_init_solo_def ds18b20_init_def ds18b20_malloc_def DS18B20_RESOLUTION_def Let_def)

subsection \<open>Reading, counting, sleeping\<close>

lemma app_read_temps_Inr:
  "app_read_temps devs sp n = Inr (evs, temps) \<Longrightarrow>
    (\<forall>j<n. devs ! j \<noteq> None) \<and> length temps = n \<and>
    (\<forall>j<n. temps ! j = snd (ds18b20_read_temp (the (devs ! j)) (sp j))) \<and>
    evs = concat (map (\<lambda>j. fst (ds18b20_read_temp (the (devs ! j)) (sp j))) [0..<n])"
proof (induction n arbitrary: evs temps)
  case 0
  then show ?case by simp
next
  case (Suc n)
  then obtain evs0 temps0 d where r: "app_read_temps devs sp n = Inr (evs0, temps0)"
    and d: "devs ! n = Some d"
    and res: "evs = evs0 @ fst (ds18b20_read_temp d (sp n))" "temps = temps0 @ [snd (ds18b20_read_temp d (sp n))]"
    by (auto split: sum.splits option.splits prod.splits)
  from Suc.IH [OF r] d res show ?case
    by (auto simp: less_Suc_eq nth_append)
qed

lemma app_read_temps_total:
  "\<forall>j<n. devs ! j \<noteq> None \<Longrightarrow> \<exists>evs temps. app_read_temps devs sp n = Inr (evs, temps)"
proof (induction n)
  case 0
  then show ?case by simp
next
  case (Suc n)
  then obtain evs temps where "app_read_temps devs sp n = Inr (evs, temps)" by auto
  moreover obtain d where "devs ! n = Some d" using Suc.prems by auto
  ultimately show ?case by (simp split: prod.splits)
qed

lemma app_count_loop_errs:
  "i + length ts \<le> length errs \<Longrightarrow>
    length (fst (app_count_loop i ts errs)) = length errs \<and>
    (\<forall>j<length errs. fst (app_count_loop i ts errs) ! j =
       errs ! j + (if i \<le> j \<and> j < i + length ts \<and> ts ! (j - i) = DS18B20_INVALID_READING then 1 else 0))"
proof (induction ts arbitrary: i errs)
  case Nil
  then show ?case by simp
next
  case (Cons t ts)
  let ?errs' = "if t = DS18B20_INVALID_READING then errs[i := Suc (errs ! i)] else errs"
  have eq: "fst (app_count_loop i (t # ts) errs) = fst (app_count_loop (Suc i) ts ?errs')"
    by (simp add: Let_def split: prod.splits)
  have IH: "length (fst (app_count_loop (Suc i) ts ?errs')) = length errs \<and>
    (\<forall>j<length errs. fst (app_count_loop (Suc i) ts ?errs') ! j =
       ?errs' ! j + (if Suc i \<le> j \<and> j < Suc i + length ts \<and> ts ! (j - Suc i) = DS18B20_INVALID_READING
                    then 1 else 0))"
    using Cons.IH [of "Suc i" ?errs'] Cons.prems by simp
  have "\<forall>j<length errs. fst (app_count_loop (Suc i) ts ?errs') ! j =
       errs ! j + (if i \<le> j \<and> j < i + length (t # ts) \<and> (t # ts) ! (j - i) = DS18B20_INVALID_READING
                   then 1 else 0)"
  proof (intro allI impI)
    fix j assume j: "j < length errs"
    show "fst (app_count_loop (Suc i) ts ?errs') ! j =
       errs ! j + (if i \<le> j \<and> j < i + length (t # ts) \<and> (t # ts) ! (j - i) = DS18B20_INVALID_READING
                   then 1 else 0)"
    proof (cases "j = i")
      case True
      with IH j show ?thesis by auto
    next
      case False
      then have "i \<le> j \<longleftrightarrow> Suc i \<le> j" by auto
      moreover have "Suc i \<le> j \<Longrightarrow> (t # ts) ! (j - i) = ts ! (j - Suc i)"
        by (simp add: Suc_diff_Suc nth_Cons')
      ultimately show ?thesis using IH j False by (auto simp: nth_list_update)
    qed
  qed
  with IH eq show ?case by simp
qed

lemma unat_period_ticks: "unat period_ticks = 100"
  by (simp add: period_ticks_def SAMPLE_PERIOD_def portTICK_PERIOD_MS_def)

text \<open>
  The period check on the tick counter: with the time since boot \<open>c\<close>, the work
  done \<open>work\<close> before the first reading and \<open>race\<close> ticks between the readings,
  the check sees the true elapsed time whatever the counter's wrap-around.
\<close>

lemma app_period_delay_elapsed:
  assumes "work < 2 ^ 32"
  shows "app_period_delay (word_of_nat c) (word_of_nat (c + work)) (word_of_nat (c + work + race)) =
    (if work < unat period_ticks then Some (period_ticks - word_of_nat (work + race)) else None)"
proof -
  have "word_of_nat (c + work + race) - (word_of_nat c :: tick) = word_of_nat (work + race)"
    using tick_of_nat_diff [of c "work + race"] by (simp add: add.assoc)
  moreover have "(word_of_nat work :: tick) < period_ticks \<longleftrightarrow> work < unat period_ticks"
    using assms by (simp add: word_less_nat_alt unat_tick_of_nat)
  ultimately show ?thesis by (simp add: app_period_delay_def)
qed

subsection \<open>What one sample does\<close>

lemma app_sample_Inr:
  assumes "app_sample s env = Inr s'"
  obtains d0 evs temps where "devices s ! 0 = Some d0"
    and "app_read_temps (devices s) (env_scratchpad env) (num_devices s) = Inr (evs, temps)"
    and "s' = (let w = ds18b20_wait_ticks portTICK_PERIOD_MS d0;
                   c1 = clock s + unat w + env_busy env; c2 = c1 + env_race env;
                   delay = app_period_delay (word_of_nat (clock s)) (word_of_nat c1) (word_of_nat c2)
               in s\<lparr>crc_errors := fst (app_count_loop 0 temps (crc_errors s)),
                    sample_count := Suc (sample_count s),
                    app_events := app_events s @ fst (ds18b20_convert_all (app_bus s)) @ [TaskDelay w] @
                      evs @ PrintSample (Suc (sample_count s)) # snd (app_count_loop 0 temps (crc_errors s)) @
                      (case delay of None \<Rightarrow> [] | Some d \<Rightarrow> [TaskDelay d]),
                    clock := (case delay of None \<Rightarrow> c1 | Some d \<Rightarrow> c2 + unat d)\<rparr>)"
proof -
  from assms obtain d0 where d0: "devices s ! 0 = Some d0"
    by (auto simp: app_sample_def Let_def split: option.splits)
  with assms obtain evs temps
    where r: "app_read_temps (devices s) (env_scratchpad env) (num_devices s) = Inr (evs, temps)"
    by (auto simp: app_sample_def Let_def split: sum.splits)
  from assms d0 r show thesis
    by (intro that [OF d0 r]) (auto simp: app_sample_def Let_def xTaskGetTickCount_def)
qed

lemma app_sample_total:
  assumes "devices s ! 0 \<noteq> None" and "\<forall>j<num_devices s. devices s ! j \<noteq> None"
  shows "\<exists>s'. app_sample s env = Inr s'"
proof -
  obtain d0 where "devices s ! 0 = Some d0" using assms(1) by auto
  moreover obtain evs temps
    where "app_read_temps (devices s) (env_scratchpad env) (num_devices s) = Inr (evs, temps)"
    using app_read_temps_total [OF assms(2)] by blast
  ultimately show ?thesis by (simp add: app_sample_def Let_def)
qed

text \<open>The time one sample takes, in every case of the period check.\<close>

lemma app_sample_clock:
  assumes "app_sample s env = Inr s'" and "devices s ! 0 = Some d0"
    and "unat (ds18b20_wait_ticks portTICK_PERIOD_MS d0) + env_busy env < 2 ^ 32"
  shows "clock s' =
    (let work = unat (ds18b20_wait_ticks portTICK_PERIOD_MS d0) + env_busy env
     in if work < unat period_ticks
        then clock s + work + env_race env + unat (period_ticks - word_of_nat (work + env_race env))
        else clock s + work)"
proof -
  obtain evs temps where r: "app_read_temps (devices s) (env_scratchpad env) (num_devices s) = Inr (evs, temps)"
    and s': "s' = (let w = ds18b20_wait_ticks portTICK_PERIOD_MS d0;
                   c1 = clock s + unat w + env_busy env; c2 = c1 + env_race env;
                   delay = app_period_delay (word_of_nat (clock s)) (word_of_nat c1) (word_of_nat c2)
               in s\<lparr>crc_errors := fst (app_count_loop 0 temps (crc_errors s)),
                    sample_count := Suc (sample_count s),
                    app_events := app_events s @ fst (ds18b20_convert_all (app_bus s)) @ [TaskDelay w] @
                      evs @ PrintSample (Suc (sample_count s)) # snd (app_count_loop 0 temps (crc_errors s)) @
                      (case delay of None \<Rightarrow> [] | Some d \<Rightarrow> [TaskDelay d]),
                    clock := (case delay of None \<Rightarrow> c1 | Some d \<Rightarrow> c2 + unat d)\<rparr>)"
    using app_sample_Inr [OF assms(1)] assms(2) by (metis option.inject)
  let ?work = "unat (ds18b20_wait_ticks portTICK_PERIOD_MS d0) + env_busy env"
  have d: "app_period_delay (word_of_nat (clock s)) (word_of_nat (clock s + ?work))
             (word_of_nat (clock s + ?work + env_race env)) =
           (if ?work < unat period_ticks then Some (period_ticks - word_of_nat (?work + env_race env))
            else None)"
    using app_period_delay_elapsed [OF assms(3)] .
  show ?thesis using s' d by (simp add: Let_def add.assoc)
qed

lemma wait_ticks_app_handle:
  "ds18b20_wait_ticks portTICK_PERIOD_MS (app_handle roms n i) = 75"
  by (simp add: ds18b20_wait_ticks_def app_handle_def portTICK_PERIOD_MS_def)

lemma example_state_devices:
  "j < length devs \<Longrightarrow> length devs \<le> MAX_DEVICES \<Longrightarrow>
     devices (example_state devs c) ! j = Some (app_handle devs (length devs) j)"
  by (simp add: example_state_def nth_append)

lemma example_state_sample_total:
  assumes "devs \<noteq> []" and "length devs \<le> MAX_DEVICES"
  shows "\<exists>s'. app_sample (example_state devs c) env = Inr s'"
proof (rule app_sample_total)
  show "devices (example_state devs c) ! 0 \<noteq> None"
    using assms example_state_devices [of 0 devs c] by simp
  show "\<forall>j<num_devices (example_state devs c). devices (example_state devs c) ! j \<noteq> None"
    using assms example_state_devices [of _ devs c] by (simp add: example_state_def)
qed

subsection \<open>The sampling period\<close>

lemma app_sample_clock_max:
  assumes "app_sample s env = Inr s'" and "devices s ! 0 = Some d0"
    and "unat (ds18b20_wait_ticks portTICK_PERIOD_MS d0) + env_busy env < 2 ^ 32"
    and "unat (ds18b20_wait_ticks portTICK_PERIOD_MS d0) + env_busy env < unat period_ticks \<Longrightarrow>
         unat (ds18b20_wait_ticks portTICK_PERIOD_MS d0) + env_busy env + env_race env \<le> unat period_ticks"
  shows "clock s' = clock s + max (unat period_ticks)
                                  (unat (ds18b20_wait_ticks portTICK_PERIOD_MS d0) + env_busy env)"
proof -
  let ?work = "unat (ds18b20_wait_ticks portTICK_PERIOD_MS d0) + env_busy env"
  have c: "clock s' = (if ?work < unat period_ticks
      then clock s + ?work + env_race env + unat (period_ticks - word_of_nat (?work + env_race env))
      else clock s + ?work)"
    using app_sample_clock [OF assms(1-3)] by (simp add: Let_def)
  show ?thesis
  proof (cases "?work < unat period_ticks")
    case True
    then have le: "?work + env_race env \<le> unat period_ticks" using assms(4) by blast
    then have "?work + env_race env < 2 ^ 32" using unat_period_ticks by simp
    then have "unat (word_of_nat (?work + env_race env) :: tick) = ?work + env_race env"
      by (rule unat_tick_of_nat)
    with le have "unat (period_ticks - word_of_nat (?work + env_race env)) =
                  unat period_ticks - (?work + env_race env)"
      by (simp add: unat_sub word_le_nat_alt)
    with c True le show ?thesis by simp
  next
    case False
    with c show ?thesis by simp
  qed
qed

text \<open>
  C3. When a sample's work (the conversion wait plus reading and printing) takes less
  than the sample period, and no more ticks than the rest of the period pass between
  the two tick readings of lines 183 and 185, the next sample starts exactly one
  period after this one started; when the work takes a period or more, the next sample
  starts as soon as the work is done (no sleep, no catch-up). This holds for every
  value of the tick counter, across its wrap-around.
\<close>

theorem app_sample_period:
  assumes "app_sample s env = Inr s'" and "devices s ! 0 = Some d0"
    and "unat (ds18b20_wait_ticks portTICK_PERIOD_MS d0) + env_busy env < 2 ^ 32"
    and "unat (ds18b20_wait_ticks portTICK_PERIOD_MS d0) + env_busy env < unat period_ticks \<Longrightarrow>
         unat (ds18b20_wait_ticks portTICK_PERIOD_MS d0) + env_busy env + env_race env \<le> unat period_ticks"
  shows "clock s' = clock s + max (unat period_ticks)
                                  (unat (ds18b20_wait_ticks portTICK_PERIOD_MS d0) + env_busy env)"
  by (rule app_sample_clock_max [OF assms])

theorem app_sample_period_witness:
  "\<exists>s'. app_sample (example_state [rom_pink] (2 ^ 32 - 30)) (example_env (\<lambda>_. scratchpad_85) 5 1) = Inr s' \<and>
        clock s' = 2 ^ 32 - 30 + 100"
proof -
  obtain s' where s': "app_sample (example_state [rom_pink] (2 ^ 32 - 30)) (example_env (\<lambda>_. scratchpad_85) 5 1) = Inr s'"
    using example_state_sample_total [of "[rom_pink]"] by (auto simp: MAX_DEVICES_def)
  have d0: "devices (example_state [rom_pink] (2 ^ 32 - 30)) ! 0 = Some (app_handle [rom_pink] 1 0)"
    using example_state_devices [of 0 "[rom_pink]"] by (simp add: MAX_DEVICES_def)
  have "clock s' = clock (example_state [rom_pink] (2 ^ 32 - 30)) + max (unat period_ticks) (75 + 5)"
    using app_sample_period [OF s' d0] by (simp add: wait_ticks_app_handle example_env_def unat_period_ticks)
  with s' show ?thesis by (auto simp: example_state_def unat_period_ticks)
qed

text \<open>
  C4. The sleep is computed from a second reading of the tick counter. When the work
  ends just under one period but the counter passes the end of the period before the
  second reading (the task is preempted for two ticks or more between lines 183 and
  185), \<open>SAMPLE_PERIOD / portTICK_PERIOD_MS - (xTaskGetTickCount() - start_ticks)\<close>
  wraps around in \<open>TickType_t\<close> and the task sleeps for almost \<open>2^32\<close> ticks
  (about 497 days at 100 Hz) before the next sample.
\<close>

theorem app_sample_oversleep:
  assumes "app_sample s env = Inr s'" and "devices s ! 0 = Some d0"
    and "unat (ds18b20_wait_ticks portTICK_PERIOD_MS d0) + env_busy env < unat period_ticks"
    and "unat period_ticks < unat (ds18b20_wait_ticks portTICK_PERIOD_MS d0) + env_busy env + env_race env"
    and "unat (ds18b20_wait_ticks portTICK_PERIOD_MS d0) + env_busy env + env_race env < 2 ^ 32"
  shows "clock s' = clock s + 2 ^ 32 + unat period_ticks"
proof -
  let ?work = "unat (ds18b20_wait_ticks portTICK_PERIOD_MS d0) + env_busy env"
  have "?work < 2 ^ 32" using assms(5) by simp
  then have c: "clock s' = clock s + ?work + env_race env +
                  unat (period_ticks - word_of_nat (?work + env_race env))"
    using app_sample_clock [OF assms(1,2)] assms(3) by (simp add: Let_def)
  have k: "unat (word_of_nat (?work + env_race env) :: tick) = ?work + env_race env"
    using assms(5) by (rule unat_tick_of_nat)
  have "unat (period_ticks - word_of_nat (?work + env_race env)) =
        unat period_ticks + 2 ^ 32 - (?work + env_race env)"
    using assms(4) k by (simp add: unat_sub_if')
  with c assms(4,5) show ?thesis by simp
qed

theorem app_sample_oversleep_witness:
  "\<exists>s'. app_sample (example_state [rom_pink] 0) (example_env (\<lambda>_. scratchpad_85) 24 2) = Inr s' \<and>
        clock s' = 2 ^ 32 + 100"
proof -
  obtain s' where s': "app_sample (example_state [rom_pink] 0) (example_env (\<lambda>_. scratchpad_85) 24 2) = Inr s'"
    using example_state_sample_total [of "[rom_pink]"] by (auto simp: MAX_DEVICES_def)
  have d0: "devices (example_state [rom_pink] 0) ! 0 = Some (app_handle [rom_pink] 1 0)"
    using example_state_devices [of 0 "[rom_pink]"] by (simp add: MAX_DEVICES_def)
  have "clock s' = clock (example_state [rom_pink] 0) + 2 ^ 32 + unat period_ticks"
    using app_sample_oversleep [OF s' d0]
    by (simp add: wait_ticks_app_handle example_env_def unat_period_ticks)
  with s' show ?thesis by (auto simp: example_state_def unat_period_ticks)
qed

subsection \<open>Error accounting\<close>

lemma app_sample_fields:
  assumes "app_sample s env = Inr s'"
  shows "phase s' = phase s \<and> wire_devices s' = wire_devices s \<and> app_bus s' = app_bus s \<and>
         device_rom_codes s' = device_rom_codes s \<and> num_devices s' = num_devices s \<and>
         devices s' = devices s \<and> sample_count s' = Suc (sample_count s)"
proof -
  obtain d0 evs temps where "s' = (let w = ds18b20_wait_ticks portTICK_PERIOD_MS d0;
                   c1 = clock s + unat w + env_busy env; c2 = c1 + env_race env;
                   delay = app_period_delay (word_of_nat (clock s)) (word_of_nat c1) (word_of_nat c2)
               in s\<lparr>crc_errors := fst (app_count_loop 0 temps (crc_errors s)),
                    sample_count := Suc (sample_count s),
                    app_events := app_events s @ fst (ds18b20_convert_all (app_bus s)) @ [TaskDelay w] @
                      evs @ PrintSample (Suc (sample_count s)) # snd (app_count_loop 0 temps (crc_errors s)) @
                      (case delay of None \<Rightarrow> [] | Some d \<Rightarrow> [TaskDelay d]),
                    clock := (case delay of None \<Rightarrow> c1 | Some d \<Rightarrow> c2 + unat d)\<rparr>)"
    by (rule app_sample_Inr [OF assms])
  then show ?thesis by (simp add: Let_def)
qed

lemma app_sample_errors:
  assumes "app_sample s env = Inr s'" and "length (crc_errors s) = MAX_DEVICES"
    and "num_devices s \<le> MAX_DEVICES"
  shows "length (crc_errors s') = MAX_DEVICES \<and>
    (\<forall>j<MAX_DEVICES. crc_errors s' ! j = crc_errors s ! j +
       (if j < num_devices s \<and>
           snd (ds18b20_read_temp (the (devices s ! j)) (env_scratchpad env j)) = DS18B20_INVALID_READING
        then 1 else 0))"
proof -
  obtain d0 evs temps where
    r: "app_read_temps (devices s) (env_scratchpad env) (num_devices s) = Inr (evs, temps)"
    and e: "crc_errors s' = fst (app_count_loop 0 temps (crc_errors s))"
  proof (rule app_sample_Inr [OF assms(1)])
    fix d0 evs temps
    assume r: "app_read_temps (devices s) (env_scratchpad env) (num_devices s) = Inr (evs, temps)"
      and "s' = (let w = ds18b20_wait_ticks portTICK_PERIOD_MS d0;
                   c1 = clock s + unat w + env_busy env; c2 = c1 + env_race env;
                   delay = app_period_delay (word_of_nat (clock s)) (word_of_nat c1) (word_of_nat c2)
               in s\<lparr>crc_errors := fst (app_count_loop 0 temps (crc_errors s)),
                    sample_count := Suc (sample_count s),
                    app_events := app_events s @ fst (ds18b20_convert_all (app_bus s)) @ [TaskDelay w] @
                      evs @ PrintSample (Suc (sample_count s)) # snd (app_count_loop 0 temps (crc_errors s)) @
                      (case delay of None \<Rightarrow> [] | Some d \<Rightarrow> [TaskDelay d]),
                    clock := (case delay of None \<Rightarrow> c1 | Some d \<Rightarrow> c2 + unat d)\<rparr>)"
    then have "crc_errors s' = fst (app_count_loop 0 temps (crc_errors s))" by (simp add: Let_def)
    with r show thesis by (rule that)
  qed
  note R = app_read_temps_Inr [OF r]
  have "0 + length temps \<le> length (crc_errors s)" using R assms(2,3) by simp
  note C = app_count_loop_errs [OF this]
  show ?thesis using C R e assms(2) by auto
qed

text \<open>
  C5. One iteration of the sampling loop counts one sample and, for each device in
  use, adds one to its error counter exactly when its reading is the invalid sentinel
  (a scratchpad whose CRC fails); the counters of the other devices and of unused
  slots are unchanged.
\<close>

theorem app_sample_crc_errors:
  assumes "app_sample s env = Inr s'" and "length (crc_errors s) = MAX_DEVICES"
    and "num_devices s \<le> MAX_DEVICES"
  shows "sample_count s' = Suc (sample_count s) \<and>
    (\<forall>j<MAX_DEVICES. crc_errors s' ! j = crc_errors s ! j +
       (if j < num_devices s \<and>
           snd (ds18b20_read_temp (the (devices s ! j)) (env_scratchpad env j)) = DS18B20_INVALID_READING
        then 1 else 0))"
  using app_sample_errors [OF assms] app_sample_fields [OF assms(1)] by simp

lemma read_temp_85:
  "snd (ds18b20_read_temp (app_handle roms n i) scratchpad_85) = 85"
  by (simp add: ds18b20_read_temp_def app_handle_def scratchpad_85_def scratchpad_bytes_def
      crc_simps ds18b20_decode_temp_def ds18b20_decode_raw_def)

lemma read_temp_bad:
  "snd (ds18b20_read_temp (app_handle roms n i) scratchpad_bad) = DS18B20_INVALID_READING"
  by (simp add: ds18b20_read_temp_def app_handle_def scratchpad_bad_def scratchpad_bytes_def
      crc_simps)

theorem app_sample_crc_errors_witness:
  "\<exists>s'. app_sample (example_state three_sensors 0)
          (example_env (\<lambda>j. if j = 1 then scratchpad_bad else scratchpad_85) 10 0) = Inr s' \<and>
        sample_count s' = 1 \<and> crc_errors s' ! 0 = 0 \<and> crc_errors s' ! 1 = 1 \<and> crc_errors s' ! 2 = 0"
proof -
  let ?s = "example_state three_sensors 0"
  let ?env = "example_env (\<lambda>j. if j = 1 then scratchpad_bad else scratchpad_85) 10 0"
  have n: "length three_sensors = 3" by (simp add: three_sensors_def)
  have ne: "three_sensors \<noteq> []" by (simp add: three_sensors_def)
  have le: "length three_sensors \<le> MAX_DEVICES" by (simp add: n MAX_DEVICES_def)
  obtain s' where s': "app_sample ?s ?env = Inr s'"
    using example_state_sample_total [OF ne le] by blast
  have len: "length (crc_errors ?s) = MAX_DEVICES" by (simp add: example_state_def)
  have num: "num_devices ?s \<le> MAX_DEVICES" by (simp add: example_state_def n MAX_DEVICES_def)
  have dev: "j < 3 \<Longrightarrow> devices ?s ! j = Some (app_handle three_sensors 3 j)" for j
    using example_state_devices [of j three_sensors 0] n by (simp add: MAX_DEVICES_def)
  note C = app_sample_crc_errors [OF s' len num]
  have "crc_errors s' ! 0 = 0" using C [THEN conjunct2, rule_format, of 0] dev [of 0]
    by (simp add: MAX_DEVICES_def example_state_def n example_env_def read_temp_85 DS18B20_INVALID_READING_def)
  moreover have "crc_errors s' ! 1 = 1" using C [THEN conjunct2, rule_format, of 1] dev [of 1]
    by (simp add: MAX_DEVICES_def example_state_def n example_env_def read_temp_bad)
  moreover have "crc_errors s' ! 2 = 0" using C [THEN conjunct2, rule_format, of 2] dev [of 2]
    by (simp add: MAX_DEVICES_def example_state_def n example_env_def read_temp_85 DS18B20_INVALID_READING_def)
  moreover have "sample_count s' = 1" using C by (simp add: example_state_def)
  ultimately show ?thesis using s' by blast
qed

subsection \<open>The codes the enumeration stores\<close>

lemma app_find_loop_codes:
  assumes "app_find_loop bus st found roms n = Inr (roms', n')" and "bus_use_crc bus"
    and "length (rom_code st) = 8" and "found \<longrightarrow> bus_wf [rom_code st]"
    and "length roms = MAX_DEVICES" and "list_all (\<lambda>r. length r = 8) roms"
    and "bus_wf (take n roms)"
  shows "list_all (\<lambda>r. length r = 8) roms' \<and> bus_wf (take n' roms')"
  using assms
proof (induction bus st found roms n rule: app_find_loop.induct)
  case (1 bus st found roms n)
  show ?case
  proof (cases "found \<and> n < MAX_DEVICES")
    case True
    obtain st' found' where nx: "owb_search_next bus st = (st', found')" by fastforce
    have l: "length (rom_code st') = 8"
      using owb_search_rom_length [of bus st] nx "1.prems"(3) by (simp add: owb_search_next_def)
    have f: "found' \<longrightarrow> bus_wf [rom_code st']"
      using owb_search_found_wf [of bus st st'] nx "1.prems"(2,3) by (simp add: owb_search_next_def)
    have r: "app_find_loop bus st' found' (roms[n := rom_code st]) (Suc n) = Inr (roms', n')"
      using "1.prems"(1) True nx by (subst (asm) app_find_loop.simps) simp
    have w: "bus_wf (take (Suc n) (roms[n := rom_code st]))"
      using "1.prems"(4,5,7) True
      by (simp add: take_Suc_conv_app_nth take_update_cancel bus_wf_def)
    have a: "list_all (\<lambda>r. length r = 8) (roms[n := rom_code st])"
      using "1.prems"(3,6) set_update_subset_insert [of roms n "rom_code st"] by (auto simp: list_all_iff)
    show ?thesis
      by (rule "1.IH" [OF _ _ nx[symmetric] r "1.prems"(2) l f _ a w])
         (use True "1.prems"(5) in simp_all)
  next
    case False
    then show ?thesis using "1.prems" by (subst (asm) app_find_loop.simps) (auto split: if_splits)
  qed
qed

lemma app_find_devices_codes:
  assumes "app_find_devices bus = Inr (roms, n)" and "bus_use_crc bus"
  shows "list_all (\<lambda>r. length r = 8) roms \<and> bus_wf (take n roms)"
proof -
  obtain st found where f: "owb_search_first bus search_state_zero = (st, found)" by fastforce
  have "length (rom_code (fst (owb_search_first bus search_state_zero))) = 8"
    by (simp add: owb_search_first_def owb_search_rom_length)
  then have l: "length (rom_code st) = 8" using f by simp
  have w: "found \<longrightarrow> bus_wf [rom_code st]"
    using f assms(2) by (auto simp: owb_search_first_def intro!: owb_search_found_wf)
  have "app_find_loop bus st found (replicate MAX_DEVICES (replicate 8 0)) 0 = Inr (roms, n)"
    using assms(1) f by (simp add: app_find_devices_def)
  then show ?thesis
    by (rule app_find_loop_codes [OF _ assms(2) l w]) (simp_all add: bus_wf_def list_all_iff)
qed

subsection \<open>Clean-up\<close>

lemma app_free_loop_done [simp]: "num_devs \<le> i \<Longrightarrow> app_free_loop num_devs i devs = devs"
  by (subst app_free_loop.simps) simp

lemma app_free_loop_nth:
  "length (app_free_loop num_devs i devs) = length devs \<and>
   (\<forall>j<length devs. app_free_loop num_devs i devs ! j =
      (if i \<le> j \<and> j < num_devs then None else devs ! j))"
proof (induction num_devs i devs rule: app_free_loop.induct)
  case (1 num_devs i devs)
  show ?case
  proof (cases "i < num_devs")
    case True
    let ?devs2 = "devs[i := ds18b20_free (devs ! i)]"
    have eq: "app_free_loop num_devs i devs = app_free_loop num_devs (Suc i) ?devs2"
      using True by (subst app_free_loop.simps) simp
    have IH: "length (app_free_loop num_devs (Suc i) ?devs2) = length devs \<and>
      (\<forall>j<length devs. app_free_loop num_devs (Suc i) ?devs2 ! j =
         (if Suc i \<le> j \<and> j < num_devs then None else ?devs2 ! j))"
      using "1.IH" [OF True] by simp
    show ?thesis
      unfolding eq using IH True by (auto simp: nth_list_update ds18b20_free_def)
  next
    case False
    then show ?thesis by auto
  qed
qed

text \<open>
  C25. The clean-up loop of lines 190 to 196 undoes the creation loop of lines 114 to
  133: for every number of devices the array can hold, freeing the first
  \<open>num_devices\<close> handles leaves every slot of \<open>devices\<close> NULL, so no handle leaks.
\<close>

theorem app_free_loop_no_leak:
  assumes "num_devs \<le> MAX_DEVICES"
  shows "app_free_loop num_devs 0 (app_init_loop roms num_devs 0 (replicate MAX_DEVICES None)) =
         replicate MAX_DEVICES None"
proof (rule nth_equalityI)
  let ?devs = "app_init_loop roms num_devs 0 (replicate MAX_DEVICES None)"
  have I: "length ?devs = MAX_DEVICES \<and> (\<forall>j<MAX_DEVICES. ?devs ! j =
       (if j < num_devs then Some (app_init_handle roms num_devs j) else None))"
    using app_init_loop_nth [of num_devs "replicate MAX_DEVICES None" roms 0] assms by simp
  show "length (app_free_loop num_devs 0 ?devs) = length (replicate MAX_DEVICES (None :: ds18b20_info option))"
    using app_free_loop_nth [of num_devs 0 ?devs] I by simp
  fix j assume "j < length (app_free_loop num_devs 0 ?devs)"
  then show "app_free_loop num_devs 0 ?devs ! j = replicate MAX_DEVICES None ! j"
    using app_free_loop_nth [of num_devs 0 ?devs] I by auto
qed

theorem app_free_loop_no_leak_witness:
  "(3::nat) \<le> MAX_DEVICES \<and>
   app_free_loop 3 0 (app_init_loop three_sensors 3 0 (replicate MAX_DEVICES None)) =
     replicate MAX_DEVICES None"
  using app_free_loop_no_leak [of 3 three_sensors] by (simp add: MAX_DEVICES_def)

end
