(* ===== verification/AppRun.thy ===== *)
theory AppRun
  imports AppMain
begin

text \<open>
  Whole runs of \<open>app_main\<close>: the states the step relation \<open>app_step\<close> of \<open>AppMain\<close> reaches
  from boot. The theory defines the invariant of the program's locals (array lengths, the
  number of devices, the handles the setup creates, the error counters against the
  sample count), shows that the setup and every iteration of the sampling loop preserve
  it, and derives from it what holds of every run: no undefined behaviour on a bus of at
  most \<open>MAX_DEVICES\<close> sensors, a sampling loop that never stops, and a program that
  returns at once when no sensor answers.
\<close>

subsection \<open>The invariant\<close>

text \<open>
  The handle array as the creation loop of lines 114 to 133 leaves it: slot \<open>i\<close> holds
  the handle of device \<open>i\<close> for \<open>i < num_devices\<close> and \<open>NULL\<close> above.
\<close>

definition handles_of :: "rom list \<Rightarrow> nat \<Rightarrow> ds18b20_info option list" where
  "handles_of roms n =
     map (\<lambda>i. if i < n then Some (app_init_handle roms n i) else None) [0..<MAX_DEVICES]"

definition app_inv :: "app_state \<Rightarrow> bool" where
  "app_inv s \<longleftrightarrow>
     length (device_rom_codes s) = MAX_DEVICES \<and> length (devices s) = MAX_DEVICES \<and>
     length (crc_errors s) = MAX_DEVICES \<and> num_devices s \<le> MAX_DEVICES \<and>
     list_all (\<lambda>e. e \<le> sample_count s) (crc_errors s) \<and>
     (phase s = Start \<longrightarrow> sample_count s = 0) \<and>
     (phase s = Returned \<longrightarrow> num_devices s = 0 \<and> sample_count s = 0) \<and>
     (phase s = Sampling \<longrightarrow> 0 < num_devices s \<and> bus_devices (app_bus s) \<noteq> [] \<and>
        devices s = handles_of (device_rom_codes s) (num_devices s))"

text \<open>
  A scratchpad a DS18B20 may send with a valid CRC: temperature register \<open>0xED40\<close>
  (\<open>-4800 / 16 = -300\<close> degrees), configuration \<open>0x7F\<close> (12 bits), CRC \<open>0x06\<close>.
\<close>

definition scratchpad_minus_300 :: "byte list" where
  "scratchpad_minus_300 = [0x40, 0xED, 0x4B, 0x46, 0x7F, 0xFF, 0x0C, 0x10, 0x06]"

subsection \<open>The setup\<close>

lemma bus_devices_owb_use_crc [simp]:
  "bus_devices (owb_use_crc (owb_rmt_initialize g D) b) = D"
  by (simp add: owb_use_crc_def owb_rmt_initialize_def)

lemma length_handles_of [simp]: "length (handles_of roms n) = MAX_DEVICES"
  by (simp add: handles_of_def)

lemma app_find_loop_bounds:
  "app_find_loop bus st found roms n = Inr (roms', n') \<Longrightarrow> n \<le> MAX_DEVICES \<Longrightarrow>
     length roms' = length roms \<and> n' \<le> MAX_DEVICES"
proof (induction bus st found roms n rule: app_find_loop.induct)
  case (1 bus st found roms n)
  show ?case
  proof (cases "found \<and> n < MAX_DEVICES")
    case True
    obtain st' found' where nx: "owb_search_next bus st = (st', found')" by fastforce
    from True have "app_find_loop bus st found roms n =
        app_find_loop bus st' found' (roms[n := rom_code st]) (Suc n)"
      by (subst app_find_loop.simps) (simp add: nx)
    with "1.prems"(1) have r: "app_find_loop bus st' found' (roms[n := rom_code st]) (Suc n) = Inr (roms', n')"
      by simp
    from True have "Suc n \<le> MAX_DEVICES" by simp
    with "1.IH" [OF _ _ nx [symmetric] r] True show ?thesis by simp
  next
    case False
    with "1.prems" show ?thesis
      by (auto simp: app_find_loop.simps [of bus st found roms n] split: if_splits)
  qed
qed

lemma app_find_devices_bounds:
  "app_find_devices bus = Inr (roms, n) \<Longrightarrow> length roms = MAX_DEVICES \<and> n \<le> MAX_DEVICES"
  by (auto simp: app_find_devices_def split: prod.splits dest: app_find_loop_bounds)

lemma app_find_devices_empty:
  "bus_devices bus = [] \<Longrightarrow> app_find_devices bus = Inr (replicate MAX_DEVICES (replicate 8 0), 0)"
  using owb_search_first_empty [of bus search_state_zero]
  by (auto simp: app_find_devices_def app_find_loop.simps)

lemma app_setup_Inr:
  assumes "app_setup s = Inr s'"
  obtains roms n where
    "app_find_devices (owb_use_crc (owb_rmt_initialize app_gpio_num (wire_devices s)) True) = Inr (roms, n)"
    and "phase s' = (if 0 < n then Sampling else Returned)" and "wire_devices s' = wire_devices s"
    and "app_bus s' = owb_use_crc (owb_rmt_initialize app_gpio_num (wire_devices s)) True"
    and "device_rom_codes s' = roms" and "num_devices s' = n"
    and "devices s' = app_init_loop roms n 0 (replicate MAX_DEVICES None)"
    and "crc_errors s' = replicate MAX_DEVICES 0" and "sample_count s' = 0"
  using assms by (auto simp: app_setup_def Let_def split: sum.splits)

lemma app_init_loop_handles:
  assumes "n \<le> MAX_DEVICES"
  shows "app_init_loop roms n 0 (replicate MAX_DEVICES None) = handles_of roms n"
proof -
  note L = app_init_loop_nth [of n "replicate MAX_DEVICES None" roms 0]
  show ?thesis
  proof (rule nth_equalityI)
    show "length (app_init_loop roms n 0 (replicate MAX_DEVICES None)) = length (handles_of roms n)"
      using L assms by (simp add: handles_of_def)
    fix j assume "j < length (app_init_loop roms n 0 (replicate MAX_DEVICES None))"
    with L assms show "app_init_loop roms n 0 (replicate MAX_DEVICES None) ! j = handles_of roms n ! j"
      by (simp add: handles_of_def)
  qed
qed

lemma app_setup_inv: "app_setup s = Inr s' \<Longrightarrow> app_inv s'"
  by (erule app_setup_Inr)
    (auto simp: app_inv_def list_all_iff app_init_loop_handles app_find_devices_empty
      dest: app_find_devices_bounds)

subsection \<open>Preservation\<close>

lemma app_sample_inv:
  assumes "app_sample s env = Inr s'" and "app_inv s" and "phase s = Sampling"
  shows "app_inv s'"
proof -
  note F = app_sample_fields [OF assms(1)]
  have "length (crc_errors s) = MAX_DEVICES" and "num_devices s \<le> MAX_DEVICES"
    using assms(2) by (simp_all add: app_inv_def)
  note E = app_sample_errors [OF assms(1) this]
  have le: "crc_errors s ! j \<le> sample_count s" if "j < MAX_DEVICES" for j
    using assms(2) that by (simp add: app_inv_def list_all_length)
  have "crc_errors s' ! j \<le> sample_count s'" if "j < MAX_DEVICES" for j
    using E [THEN conjunct2, rule_format, OF that] le [OF that] F by simp
  with E have "list_all (\<lambda>e. e \<le> sample_count s') (crc_errors s')"
    by (simp add: list_all_length)
  with E F assms(2,3) show ?thesis by (simp add: app_inv_def)
qed

lemma app_inv_boot: "app_inv (app_boot devs t0)"
  by (simp add: app_inv_def app_boot_def list_all_iff)

lemma app_step_inv: "app_step s s' \<Longrightarrow> app_inv s \<Longrightarrow> app_inv s'"
proof (induction rule: app_step.induct)
  case (do_setup s s')
  then show ?case by (blast intro: app_setup_inv)
next
  case (do_sample s env s')
  then show ?case by (blast intro: app_sample_inv)
qed (auto simp: app_inv_def list_all_iff)

lemma app_reachable_app_inv: "app_reachable s \<Longrightarrow> app_inv s"
  by (induction rule: app_reachable.induct) (auto simp: app_inv_boot app_step_inv)

lemma app_step_wire: "app_step s s' \<Longrightarrow> wire_devices s' = wire_devices s"
  by (induction rule: app_step.induct) (auto elim: app_setup_Inr dest: app_sample_fields)

text \<open>On a bus of at most \<open>MAX_DEVICES\<close> valid sensors the setup is defined.\<close>

lemma app_setup_defined:
  assumes "bus_wf (wire_devices s)" and "length (rom_sort (wire_devices s)) \<le> MAX_DEVICES"
  shows "\<exists>s'. app_setup s = Inr s' \<and> num_devices s' = length (rom_sort (wire_devices s)) \<and>
    phase s' = (if wire_devices s = [] then Returned else Sampling)"
proof -
  let ?bus = "owb_use_crc (owb_rmt_initialize app_gpio_num (wire_devices s)) True"
  have "app_find_devices ?bus =
      Inr (rom_sort (wire_devices s) @
           replicate (MAX_DEVICES - length (rom_sort (wire_devices s))) (replicate 8 0),
           length (rom_sort (wire_devices s)))"
    using app_find_devices_eq [of ?bus] assms by simp
  moreover have "0 < length (rom_sort (wire_devices s)) \<longleftrightarrow> wire_devices s \<noteq> []"
    by (metis length_greater_0_conv set_empty set_rom_sort)
  ultimately show ?thesis by (simp add: app_setup_def Let_def)
qed

lemma app_setup_Inl:
  "app_setup s = Inl e \<Longrightarrow> bus_wf (wire_devices s) \<Longrightarrow>
     length (rom_sort (wire_devices s)) \<le> MAX_DEVICES \<Longrightarrow> False"
  using app_setup_defined [of s] by auto

lemma app_sample_defined:
  assumes "app_inv s" and "phase s = Sampling"
  shows "\<exists>s'. app_sample s env = Inr s'"
proof (rule app_sample_total)
  from assms have d: "devices s = handles_of (device_rom_codes s) (num_devices s)"
    and n: "0 < num_devices s" "num_devices s \<le> MAX_DEVICES"
    by (simp_all add: app_inv_def)
  show "devices s ! 0 \<noteq> None" using d n by (simp add: handles_of_def MAX_DEVICES_def)
  show "\<forall>j<num_devices s. devices s ! j \<noteq> None" using d n by (simp add: handles_of_def)
qed

lemma app_reachable_one_sensor:
  "\<exists>s. app_reachable s \<and> phase s = Sampling \<and> num_devices s = 1 \<and> wire_devices s = [rom_pink] \<and>
     sample_count s = 0"
proof -
  let ?s0 = "app_boot [rom_pink] 0"
  have wf: "bus_wf (wire_devices ?s0)"
    by (simp add: app_boot_def rom_pink_def bus_wf_def rom_crc_ok_def crc_simps)
  have len: "length (rom_sort (wire_devices ?s0)) \<le> MAX_DEVICES"
    by (simp add: app_boot_def rom_sort_def MAX_DEVICES_def)
  obtain s' where s': "app_setup ?s0 = Inr s'" and n: "num_devices s' = 1" and p: "phase s' = Sampling"
    using app_setup_defined [OF wf len] by (auto simp: app_boot_def rom_sort_def)
  have "app_step ?s0 s'" using s' by (intro app_step.do_setup) (simp_all add: app_boot_def)
  then have "app_reachable s'" by (rule app_reachable.step [OF app_reachable.boot])
  moreover have "wire_devices s' = [rom_pink]" and "sample_count s' = 0"
    using s' by (auto elim: app_setup_Inr simp: app_boot_def)
  ultimately show ?thesis using n p by blast
qed

lemma app_count_loop_events:
  "length (snd (app_count_loop i ts errs)) = length ts \<and>
   \<not> list_ex bus_event (snd (app_count_loop i ts errs))"
  by (induction ts arbitrary: i errs) (simp_all add: Let_def split_def bus_event_def)

lemma app_inv_sampling_handle:
  assumes "app_inv s" and "phase s = Sampling" and "j < num_devices s"
  shows "devices s ! j = Some (app_init_handle (device_rom_codes s) (num_devices s) j)"
proof -
  from assms have "devices s = handles_of (device_rom_codes s) (num_devices s)"
    and "num_devices s \<le> MAX_DEVICES" by (simp_all add: app_inv_def)
  with assms(3) show ?thesis by (simp add: handles_of_def)
qed

lemma app_check_known_iff:
  assumes "bus_wf (bus_devices bus)"
  shows "app_check_known bus \<longleftrightarrow>
    (\<exists>r\<in>set (bus_devices bus). take 7 r = [0x28, 0xee, 0xcc, 0x87, 0x2e, 0x16, 0x01])"
proof -
  have l: "length known_device = 8" by (simp add: known_device_def)
  have "app_check_known bus \<longleftrightarrow> known_device \<in> set (bus_devices bus)"
    using owb_verify_rom_sound [OF assms l] owb_verify_rom_complete [OF assms l]
    by (auto simp: app_check_known_def)
  also have "\<dots> \<longleftrightarrow> (\<exists>r\<in>set (bus_devices bus). take 7 r = [0x28, 0xee, 0xcc, 0x87, 0x2e, 0x16, 0x01])"
  proof
    assume "known_device \<in> set (bus_devices bus)"
    then show "\<exists>r\<in>set (bus_devices bus). take 7 r = [0x28, 0xee, 0xcc, 0x87, 0x2e, 0x16, 0x01]"
      by (intro bexI [of _ known_device]) (simp_all add: known_device_def)
  next
    assume "\<exists>r\<in>set (bus_devices bus). take 7 r = [0x28, 0xee, 0xcc, 0x87, 0x2e, 0x16, 0x01]"
    then obtain r where r: "r \<in> set (bus_devices bus)"
      and t: "take 7 r = [0x28, 0xee, 0xcc, 0x87, 0x2e, 0x16, 0x01]" by blast
    have "rom_crc_ok r" using assms r by (simp add: bus_wf_def list_all_iff)
    from this t have "r = known_device" by (rule known_device_unique)
    with r show "known_device \<in> set (bus_devices bus)" by simp
  qed
  finally show ?thesis .
qed

lemma read_temp_minus_300:
  "snd (ds18b20_read_temp (app_handle roms n i) scratchpad_minus_300) = DS18B20_INVALID_READING"
  by (simp add: ds18b20_read_temp_def app_handle_def scratchpad_minus_300_def scratchpad_bytes_def
      crc_simps ds18b20_decode_temp_def ds18b20_decode_raw_def DS18B20_INVALID_READING_def)

lemma crc_scratchpad_minus_300: "owb_crc8_bytes 0 scratchpad_minus_300 = 0"
  by (simp add: scratchpad_minus_300_def crc_simps)

lemma app_count_loop_prints:
  "i + length ts \<le> length errs \<Longrightarrow>
   snd (app_count_loop i ts errs) =
     map (\<lambda>k. PrintReading (i + k) (ts ! k) (fst (app_count_loop i ts errs) ! (i + k))) [0..<length ts]"
proof (induction ts arbitrary: i errs)
  case Nil
  then show ?case by simp
next
  case (Cons t ts)
  let ?errs' = "if t = DS18B20_INVALID_READING then errs[i := Suc (errs ! i)] else errs"
  have len: "Suc i + length ts \<le> length ?errs'" using Cons.prems by simp
  have step: "app_count_loop i (t # ts) errs =
      (fst (app_count_loop (Suc i) ts ?errs'),
       PrintReading i t (?errs' ! i) # snd (app_count_loop (Suc i) ts ?errs'))"
    by (simp add: Let_def split_def)
  have keep: "fst (app_count_loop (Suc i) ts ?errs') ! i = ?errs' ! i"
    using app_count_loop_errs [OF len] len by simp
  have "map (\<lambda>k. PrintReading (i + k) ((t # ts) ! k)
                (fst (app_count_loop (Suc i) ts ?errs') ! (i + k))) [0..<Suc (length ts)] =
        PrintReading i t (?errs' ! i) #
        map (\<lambda>k. PrintReading (Suc i + k) (ts ! k)
                (fst (app_count_loop (Suc i) ts ?errs') ! (Suc i + k))) [0..<length ts]"
    using keep by (simp add: upt_conv_Cons map_Suc_upt [symmetric] del: upt_Suc)
  with Cons.IH [OF len] step show ?case by simp
qed

lemma read_temp_app_handle:
  "snd (ds18b20_read_temp (app_handle roms n i) sp) =
     (if owb_crc8_bytes 0 (scratchpad_bytes sp) \<noteq> 0 then DS18B20_INVALID_READING
      else ds18b20_decode_temp DS18B20_RESOLUTION_12_BIT (scratchpad_bytes sp ! 0) (scratchpad_bytes sp ! 1))"
  by (simp add: ds18b20_read_temp_def app_handle_def Let_def)

lemma scratchpad_bytes_9: "length sp = 9 \<Longrightarrow> scratchpad_bytes sp = sp"
  by (simp add: scratchpad_bytes_def)

lemma app_sample_events:
  assumes "app_sample s env = Inr s'"
  obtains d0 evs temps tail where "devices s ! 0 = Some d0"
    and "app_read_temps (devices s) (env_scratchpad env) (num_devices s) = Inr (evs, temps)"
    and "crc_errors s' = fst (app_count_loop 0 temps (crc_errors s))"
    and "app_events s' = app_events s @ fst (ds18b20_convert_all (app_bus s)) @
           [TaskDelay (ds18b20_wait_ticks portTICK_PERIOD_MS d0)] @ evs @
           PrintSample (Suc (sample_count s)) # snd (app_count_loop 0 temps (crc_errors s)) @ tail"
    and "tail = [] \<or> (\<exists>d. tail = [TaskDelay d])"
proof -
  obtain d0 evs temps where d0: "devices s ! 0 = Some d0"
    and r: "app_read_temps (devices s) (env_scratchpad env) (num_devices s) = Inr (evs, temps)"
    and s': "s' = (let w = ds18b20_wait_ticks portTICK_PERIOD_MS d0;
                   c1 = clock s + unat w + env_busy env; c2 = c1 + env_race env;
                   delay = app_period_delay (word_of_nat (clock s)) (word_of_nat c1) (word_of_nat c2)
               in s\<lparr>crc_errors := fst (app_count_loop 0 temps (crc_errors s)),
                    sample_count := Suc (sample_count s),
                    app_events := app_events s @ fst (ds18b20_convert_all (app_bus s)) @ [TaskDelay w] @
                      evs @ PrintSample (Suc (sample_count s)) # snd (app_count_loop 0 temps (crc_errors s)) @
                      (case delay of None \<Rightarrow> [] | Some d \<Rightarrow> [TaskDelay d]),
                    clock := (case delay of None \<Rightarrow> c1 | Some d \<Rightarrow> c2 + unat d)\<rparr>)"
    by (rule app_sample_Inr [OF assms])
  define tail where "tail = (case app_period_delay (word_of_nat (clock s))
      (word_of_nat (clock s + unat (ds18b20_wait_ticks portTICK_PERIOD_MS d0) + env_busy env))
      (word_of_nat (clock s + unat (ds18b20_wait_ticks portTICK_PERIOD_MS d0) + env_busy env + env_race env))
      of None \<Rightarrow> [] | Some d \<Rightarrow> [TaskDelay d])"
  have "crc_errors s' = fst (app_count_loop 0 temps (crc_errors s))" using s' by (simp add: Let_def)
  moreover have "app_events s' = app_events s @ fst (ds18b20_convert_all (app_bus s)) @
           [TaskDelay (ds18b20_wait_ticks portTICK_PERIOD_MS d0)] @ evs @
           PrintSample (Suc (sample_count s)) # snd (app_count_loop 0 temps (crc_errors s)) @ tail"
    using s' by (simp add: Let_def tail_def)
  moreover have "tail = [] \<or> (\<exists>d. tail = [TaskDelay d])" by (simp add: tail_def split: option.split)
  ultimately show thesis by (rule that [OF d0 r])
qed

lemma app_setup_events:
  assumes "app_setup s = Inr s'" and "bus_wf (wire_devices s)"
  shows "app_events s' = app_events s @
    [PrintText ''Initializing in 2 seconds'', TaskDelay 200, PrintText ''Find devices:''] @
    map (\<lambda>i. PrintRom i (owb_string_from_rom_code (rom_sort (wire_devices s) ! i)))
      [0..<length (rom_sort (wire_devices s))] @
    [PrintFound (length (rom_sort (wire_devices s))),
     PrintPresent (owb_string_from_rom_code known_device)
       (app_check_known (owb_use_crc (owb_rmt_initialize app_gpio_num (wire_devices s)) True))] @
    (if length (rom_sort (wire_devices s)) = 1
     then [PrintText ''Single device optimisations enabled''] else [])"
proof -
  let ?bus = "owb_use_crc (owb_rmt_initialize app_gpio_num (wire_devices s)) True"
  have eq: "app_find_devices ?bus =
    (if length (rom_sort (wire_devices s)) \<le> MAX_DEVICES
     then Inr (rom_sort (wire_devices s) @
               replicate (MAX_DEVICES - length (rom_sort (wire_devices s))) (replicate 8 0),
               length (rom_sort (wire_devices s)))
     else Inl Device_array_overflow)"
    using app_find_devices_eq [of ?bus] assms(2) by simp
  from assms(1) show ?thesis
    by (auto simp: app_setup_def Let_def eq portTICK_PERIOD_MS_def map_upt_append_nth nth_append
        split: if_splits)
qed

subsection \<open>What holds of every run\<close>

text \<open>
  C6. In every reachable state of the sampling loop, slot \<open>j\<close> of \<open>devices\<close> holds, for
  each device found, a handle that is initialised, in solo mode exactly when it is the
  only device (and then bound to no ROM code), bound to the device's ROM code otherwise,
  with CRC checking of readings on and 12-bit resolution; the slots above
  \<open>num_devices\<close> are \<open>NULL\<close>.
\<close>

theorem app_reachable_handles:
  assumes "app_reachable s" and "phase s = Sampling" and "j < MAX_DEVICES"
  shows "devices s ! j =
    (if j < num_devices s
     then Some \<lparr>ds_init = True, ds_solo = (num_devices s = 1), ds_use_crc = True,
                ds_rom_code = (if num_devices s = 1 then replicate 8 0 else device_rom_codes s ! j),
                ds_resolution = DS18B20_RESOLUTION_12_BIT\<rparr>
     else None)"
  using app_reachable_app_inv [OF assms(1)] assms(2,3)
  by (simp add: app_inv_def handles_of_def app_init_handle_eq app_handle_def)

theorem app_reachable_handles_witness:
  "\<exists>s. app_reachable s \<and> phase s = Sampling \<and>
     devices s ! 0 = Some \<lparr>ds_init = True, ds_solo = True, ds_use_crc = True,
       ds_rom_code = replicate 8 0, ds_resolution = DS18B20_RESOLUTION_12_BIT\<rparr>"
proof -
  obtain s where s: "app_reachable s" "phase s = Sampling" "num_devices s = 1"
    using app_reachable_one_sensor by blast
  have "(0::nat) < MAX_DEVICES" by (simp add: MAX_DEVICES_def)
  from app_reachable_handles [OF s(1,2) this] s show ?thesis by auto
qed

text \<open>
  C7. In every reachable state at most \<open>MAX_DEVICES\<close> devices are in use, there is one
  error counter per slot, and no device's error counter exceeds the number of samples
  taken.
\<close>

theorem app_reachable_counters:
  assumes "app_reachable s"
  shows "num_devices s \<le> MAX_DEVICES \<and> length (crc_errors s) = MAX_DEVICES \<and>
    (\<forall>j<MAX_DEVICES. crc_errors s ! j \<le> sample_count s)"
  using app_reachable_app_inv [OF assms] by (auto simp: app_inv_def list_all_length)

theorem app_reachable_counters_witness:
  "app_reachable (app_boot three_sensors 0) \<and> crc_errors (app_boot three_sensors 0) ! 0 \<le> 0"
proof -
  have r: "app_reachable (app_boot three_sensors 0)" by (rule app_reachable.boot)
  have "(0::nat) < MAX_DEVICES" by (simp add: MAX_DEVICES_def)
  with app_reachable_counters [OF r] have "crc_errors (app_boot three_sensors 0) ! 0 \<le> 0"
    by (simp add: app_boot_def)
  with r show ?thesis by blast
qed

text \<open>
  C8. On a bus of at most \<open>MAX_DEVICES\<close> sensors with valid ROM codes, no run of the
  program reaches undefined behaviour: neither the enumeration's store past the array nor
  a dereference of a \<open>NULL\<close> handle in the sampling loop.
\<close>

theorem app_reachable_defined:
  assumes "app_reachable s" and "bus_wf (wire_devices s)"
    and "length (rom_sort (wire_devices s)) \<le> MAX_DEVICES"
  shows "phase s \<noteq> Undefined e"
  using assms(1)
proof cases
  case (boot devs t0)
  then show ?thesis by (simp add: app_boot_def)
next
  case (step s0)
  have w: "wire_devices s = wire_devices s0" by (rule app_step_wire [OF step(2)])
  have inv: "app_inv s0" by (rule app_reachable_app_inv [OF step(1)])
  from step(2) show ?thesis
  proof cases
    case do_setup
    from do_setup(2) show ?thesis by (rule app_setup_Inr) simp
  next
    case (setup_fault e')
    with assms(2,3) w show ?thesis by (auto dest: app_setup_Inl)
  next
    case (do_sample env)
    then show ?thesis by (simp add: app_sample_fields)
  next
    case (sample_fault env e')
    with app_sample_defined [OF inv, of env] show ?thesis by auto
  qed
qed

theorem app_reachable_defined_witness:
  "phase (app_boot three_sensors 0) \<noteq> Undefined Device_array_overflow"
  using app_reachable_defined [OF app_reachable.boot, of three_sensors 0 Device_array_overflow]
    bus_wf_three_sensors length_rom_sort_three_sensors
  by (simp add: app_boot_def MAX_DEVICES_def)

text \<open>
  C9. The sampling loop never stops: from every reachable state in the loop and under
  every environment (any scratchpad bytes, any time spent), the next iteration is
  defined, stays in the loop and counts one more sample. The program has no state in
  which it stops sampling (\<open>while (1)\<close> has no exit), so the clean-up of lines 190 to 196
  is never reached once a device is found.
\<close>

theorem app_sampling_progress:
  assumes "app_reachable s" and "phase s = Sampling"
  shows "\<exists>s'. app_sample s env = Inr s' \<and> app_step s s' \<and> phase s' = Sampling \<and>
    sample_count s' = Suc (sample_count s)"
proof -
  obtain s' where s': "app_sample s env = Inr s'"
    using app_sample_defined [OF app_reachable_app_inv [OF assms(1)] assms(2)] by blast
  have "app_step s s'" by (rule app_step.do_sample [OF assms(2) s'])
  with s' assms(2) show ?thesis by (simp add: app_sample_fields)
qed

theorem app_sampling_progress_witness:
  "\<exists>s s'. app_reachable s \<and> phase s = Sampling \<and>
     app_step s s' \<and> phase s' = Sampling \<and> sample_count s' = Suc (sample_count s)"
proof -
  obtain s where s: "app_reachable s" "phase s = Sampling"
    using app_reachable_one_sensor by blast
  from app_sampling_progress [OF s, of "example_env (\<lambda>j. scratchpad_85) 0 0"] s show ?thesis
    by blast
qed

text \<open>
  C10. When no sensor answers on the bus, the program never enters the sampling loop:
  the setup leaves it in the state after line 188 with no sample taken, and from there
  no further step is possible (\<open>app_main\<close> returns).
\<close>

theorem app_no_devices_returns:
  assumes "app_reachable s" and "wire_devices s = []"
  shows "phase s \<noteq> Sampling \<and> sample_count s = 0 \<and> (phase s = Returned \<longrightarrow> \<not> app_step s s')"
  using assms
proof (induction arbitrary: s' rule: app_reachable.induct)
  case (boot devs t0)
  then show ?case by (simp add: app_boot_def)
next
  case (step s0 s1)
  have w: "wire_devices s0 = []" using app_step_wire [OF step.hyps(2)] step.prems by simp
  note IH = step.IH [OF w]
  have nostep: "\<not> app_step s1 s'" if "phase s1 = Returned" for s'
    using that by (auto elim: app_step_cases)
  from step.hyps(2) show ?case
  proof cases
    case do_setup
    have wf: "bus_wf (wire_devices s0)" using w by (simp add: bus_wf_def)
    have "length (rom_sort (wire_devices s0)) \<le> MAX_DEVICES" using w by (simp add: rom_sort_def)
    from app_setup_defined [OF wf this] do_setup(2) w have "phase s1 = Returned" by auto
    moreover from do_setup(2) have "sample_count s1 = 0" by (rule app_setup_Inr)
    ultimately show ?thesis using nostep by simp
  next
    case (setup_fault e)
    then show ?thesis using IH by simp
  next
    case (do_sample env)
    then show ?thesis using IH by simp
  next
    case (sample_fault env e)
    then show ?thesis using IH by simp
  qed
qed

theorem app_no_devices_returns_witness:
  "\<exists>s. app_reachable s \<and> wire_devices s = [] \<and> phase s = Returned \<and> sample_count s = 0 \<and>
     (\<forall>s'. \<not> app_step s s')"
proof -
  let ?s0 = "app_boot [] 0"
  have wf: "bus_wf (wire_devices ?s0)" by (simp add: app_boot_def bus_wf_def)
  have len: "length (rom_sort (wire_devices ?s0)) \<le> MAX_DEVICES"
    by (simp add: app_boot_def rom_sort_def)
  obtain s1 where s1: "app_setup ?s0 = Inr s1" and p: "phase s1 = Returned"
    using app_setup_defined [OF wf len] by (auto simp: app_boot_def)
  have "app_step ?s0 s1" using s1 by (intro app_step.do_setup) (simp_all add: app_boot_def)
  then have r: "app_reachable s1" by (rule app_reachable.step [OF app_reachable.boot])
  have w: "wire_devices s1 = []" using s1 by (auto elim: app_setup_Inr simp: app_boot_def)
  have "sample_count s1 = 0 \<and> (\<forall>s'. \<not> app_step s1 s')"
    using app_no_devices_returns [OF r w] p by simp
  with r w p show ?thesis by blast
qed

subsection \<open>One iteration on the bus\<close>

text \<open>
  C11. In every iteration of the sampling loop of a run, the program first starts the
  conversion on all devices at once (reset, SKIP ROM \<open>0xCC\<close>, CONVERT T \<open>0x44\<close>), then
  sleeps 75 ticks (750 ms, the conversion time at 12-bit resolution), then reads every
  device's scratchpad in index order, and only then prints the sample header, the
  readings and sleeps for the rest of the period; nothing after the header uses the bus.
\<close>

theorem app_sample_trace:
  assumes "app_reachable s" and "phase s = Sampling" and "app_sample s env = Inr s'"
  shows "\<exists>prints. app_events s' = app_events s @
      [BusReset, BusWrite 0xCC, BusWrite 0x44, TaskDelay 75] @
      concat (map (\<lambda>j. fst (ds18b20_read_temp (the (devices s ! j)) (env_scratchpad env j)))
                  [0..<num_devices s]) @
      PrintSample (Suc (sample_count s)) # prints \<and>
    \<not> list_ex bus_event prints \<and> length prints \<le> Suc (num_devices s)"
proof -
  have inv: "app_inv s" by (rule app_reachable_app_inv [OF assms(1)])
  then have n: "0 < num_devices s" and bus: "bus_devices (app_bus s) \<noteq> []"
    using assms(2) by (simp_all add: app_inv_def)
  obtain d0 evs temps where d0: "devices s ! 0 = Some d0"
    and r: "app_read_temps (devices s) (env_scratchpad env) (num_devices s) = Inr (evs, temps)"
    and s': "s' = (let w = ds18b20_wait_ticks portTICK_PERIOD_MS d0;
                   c1 = clock s + unat w + env_busy env; c2 = c1 + env_race env;
                   delay = app_period_delay (word_of_nat (clock s)) (word_of_nat c1) (word_of_nat c2)
               in s\<lparr>crc_errors := fst (app_count_loop 0 temps (crc_errors s)),
                    sample_count := Suc (sample_count s),
                    app_events := app_events s @ fst (ds18b20_convert_all (app_bus s)) @ [TaskDelay w] @
                      evs @ PrintSample (Suc (sample_count s)) # snd (app_count_loop 0 temps (crc_errors s)) @
                      (case delay of None \<Rightarrow> [] | Some d \<Rightarrow> [TaskDelay d]),
                    clock := (case delay of None \<Rightarrow> c1 | Some d \<Rightarrow> c2 + unat d)\<rparr>)"
    by (rule app_sample_Inr [OF assms(3)])
  have w: "ds18b20_wait_ticks portTICK_PERIOD_MS d0 = 75"
    using app_inv_sampling_handle [OF inv assms(2) n] d0 by (simp add: app_init_handle_eq wait_ticks_app_handle)
  note R = app_read_temps_Inr [OF r]
  note C = app_count_loop_events [of 0 temps "crc_errors s"]
  let ?delay = "app_period_delay (word_of_nat (clock s))
      (word_of_nat (clock s + 75 + env_busy env)) (word_of_nat (clock s + 75 + env_busy env + env_race env))"
  let ?prints = "snd (app_count_loop 0 temps (crc_errors s)) @
      (case ?delay of None \<Rightarrow> [] | Some d \<Rightarrow> [TaskDelay d])"
  have "\<not> list_ex bus_event ?prints" using C by (simp add: bus_event_def split: option.split)
  moreover have "length ?prints \<le> Suc (num_devices s)" using C R by (simp split: option.split)
  moreover have "app_events s' = app_events s @ [BusReset, BusWrite 0xCC, BusWrite 0x44, TaskDelay 75] @
      evs @ PrintSample (Suc (sample_count s)) # ?prints"
    using s' w bus by (simp add: Let_def ds18b20_convert_all_def)
  ultimately show ?thesis using R by blast
qed

theorem app_sample_trace_witness:
  "\<exists>s s'. app_reachable s \<and> phase s = Sampling \<and>
     app_sample s (example_env (\<lambda>j. scratchpad_85) 10 0) = Inr s' \<and>
     take 4 (drop (length (app_events s)) (app_events s')) =
       [BusReset, BusWrite 0xCC, BusWrite 0x44, TaskDelay 75]"
proof -
  obtain s where s: "app_reachable s" "phase s = Sampling"
    using app_reachable_one_sensor by blast
  obtain s' where s': "app_sample s (example_env (\<lambda>j. scratchpad_85) 10 0) = Inr s'"
    using app_sample_defined [OF app_reachable_app_inv [OF s(1)] s(2)] by blast
  from app_sample_trace [OF s s'] s s' show ?thesis by auto
qed

text \<open>
  C12. Every scratchpad read of the loop addresses its device the way the setup bound
  it: with SKIP ROM (\<open>0xCC\<close>) when the device is the only one on the bus, and with
  MATCH ROM (\<open>0x55\<close>) followed by the device's enumerated ROM code otherwise, then
  READ SCRATCHPAD (\<open>0xBE\<close>) and nine bytes.
\<close>

theorem app_read_addressing:
  assumes "app_reachable s" and "phase s = Sampling" and "j < num_devices s"
  shows "fst (ds18b20_read_temp (the (devices s ! j)) sp) =
    BusReset # (if num_devices s = 1 then [BusWrite 0xCC]
                else BusWrite 0x55 # map BusWrite (device_rom_codes s ! j)) @
    [BusWrite 0xBE, BusRead 9]"
  using app_inv_sampling_handle [OF app_reachable_app_inv [OF assms(1)] assms(2,3)]
  by (simp add: app_init_handle_eq ds18b20_read_temp_def app_handle_def ds18b20_address_def Let_def)

theorem app_read_addressing_witness:
  "\<exists>s. app_reachable s \<and> phase s = Sampling \<and>
     fst (ds18b20_read_temp (the (devices s ! 0)) scratchpad_85) =
       [BusReset, BusWrite 0xCC, BusWrite 0xBE, BusRead 9]"
proof -
  obtain s where s: "app_reachable s" "phase s = Sampling" "num_devices s = 1"
    using app_reachable_one_sensor by blast
  from app_read_addressing [OF s(1,2), of 0 scratchpad_85] s show ?thesis by auto
qed

text \<open>
  C13. What the setup prints on a bus of sensors with valid ROM codes: the line
  announcing the 2-second settle delay, the delay (200 ticks), \<open>Find devices:\<close>, one
  line per sensor in the order of the search with its code as 16 hexadecimal digits, the
  number of sensors found, the known device of lines 91 to 95 (printed
  \<open>0001162e87ccee28\<close>) as present exactly when a sensor with its family \<open>0x28\<close> and
  serial number \<open>ee cc 87 2e 16 01\<close> is on the bus (\<open>owb_verify_rom\<close> answers for the
  code whose CRC byte \<open>0x00\<close> is the CRC of the first seven bytes, and a valid code is
  determined by them), and, when exactly one sensor was found, the line of line 124.
\<close>

theorem app_setup_known_device:
  assumes "app_setup s = Inr s'" and "bus_wf (wire_devices s)"
  shows "app_events s' = app_events s @
    [PrintText ''Initializing in 2 seconds'', TaskDelay 200, PrintText ''Find devices:''] @
    map (\<lambda>i. PrintRom i (owb_string_from_rom_code (rom_sort (wire_devices s) ! i)))
      [0..<length (rom_sort (wire_devices s))] @
    [PrintFound (length (rom_sort (wire_devices s))),
     PrintPresent ''0001162e87ccee28''
       (\<exists>r\<in>set (wire_devices s). take 7 r = [0x28, 0xee, 0xcc, 0x87, 0x2e, 0x16, 0x01])] @
    (if length (rom_sort (wire_devices s)) = 1
     then [PrintText ''Single device optimisations enabled''] else [])"
proof -
  let ?bus = "owb_use_crc (owb_rmt_initialize app_gpio_num (wire_devices s)) True"
  have k: "app_check_known ?bus \<longleftrightarrow>
      (\<exists>r\<in>set (wire_devices s). take 7 r = [0x28, 0xee, 0xcc, 0x87, 0x2e, 0x16, 0x01])"
    using app_check_known_iff [of ?bus] assms(2) by simp
  have "owb_string_from_rom_code known_device = ''0001162e87ccee28''"
    using owb_string_pink by (simp add: known_device_def)
  with app_setup_events [OF assms] k show ?thesis by simp
qed

theorem app_setup_known_device_witness:
  "\<exists>s'. app_setup (app_boot [rom_pink] 0) = Inr s' \<and>
     app_events s' = [PrintText ''Initializing in 2 seconds'', TaskDelay 200, PrintText ''Find devices:'', PrintRom 0 (owb_string_from_rom_code rom_pink), PrintFound 1,
                      PrintPresent ''0001162e87ccee28'' True,
                      PrintText ''Single device optimisations enabled'']"
proof -
  have wf: "bus_wf (wire_devices (app_boot [rom_pink] 0))"
    by (simp add: app_boot_def rom_pink_def bus_wf_def rom_crc_ok_def crc_simps)
  have len: "length (rom_sort (wire_devices (app_boot [rom_pink] 0))) \<le> MAX_DEVICES"
    by (simp add: app_boot_def rom_sort_def MAX_DEVICES_def)
  obtain s' where s': "app_setup (app_boot [rom_pink] 0) = Inr s'"
    using app_setup_defined [OF wf len] by blast
  have "\<exists>r\<in>set [rom_pink]. take 7 r = [0x28, 0xee, 0xcc, 0x87, 0x2e, 0x16, 0x01]"
    by (simp add: rom_pink_def)
  with app_setup_known_device [OF s' wf] s' show ?thesis by (auto simp: app_boot_def rom_sort_def)
qed

subsection \<open>Enumeration and the sentinel\<close>

text \<open>
  C14. The invalid-reading sentinel \<open>-300\<close> is also a temperature a scratchpad with a
  valid CRC encodes (register \<open>0xED40\<close>): such a reading is counted as a CRC error by
  lines 174 to 177, like a corrupted scratchpad.
\<close>

theorem app_sample_counts_valid_sentinel:
  assumes "app_reachable s" and "phase s = Sampling" and "app_sample s env = Inr s'"
    and "j < num_devices s" and "env_scratchpad env j = scratchpad_minus_300"
  shows "owb_crc8_bytes 0 (env_scratchpad env j) = 0 \<and> crc_errors s' ! j = Suc (crc_errors s ! j)"
proof -
  have inv: "app_inv s" by (rule app_reachable_app_inv [OF assms(1)])
  then have "length (crc_errors s) = MAX_DEVICES" and n: "num_devices s \<le> MAX_DEVICES"
    by (simp_all add: app_inv_def)
  note E = app_sample_errors [OF assms(3) this]
  have "j < MAX_DEVICES" using assms(4) n by simp
  with E app_inv_sampling_handle [OF inv assms(2,4)] assms(4,5)
  have "crc_errors s' ! j = Suc (crc_errors s ! j)" by (simp add: app_init_handle_eq read_temp_minus_300)
  with assms(5) show ?thesis by (simp add: crc_scratchpad_minus_300)
qed

theorem app_sample_counts_valid_sentinel_witness:
  "\<exists>s s'. app_reachable s \<and> phase s = Sampling \<and>
     app_sample s (example_env (\<lambda>j. scratchpad_minus_300) 10 0) = Inr s' \<and>
     crc_errors s' ! 0 = Suc (crc_errors s ! 0)"
proof -
  obtain s where s: "app_reachable s" "phase s = Sampling" "num_devices s = 1"
    using app_reachable_one_sensor by blast
  obtain s' where s': "app_sample s (example_env (\<lambda>j. scratchpad_minus_300) 10 0) = Inr s'"
    using app_sample_defined [OF app_reachable_app_inv [OF s(1)] s(2)] by blast
  have "0 < num_devices s" using s(3) by simp
  from app_sample_counts_valid_sentinel [OF s(1,2) s' this] s s' show ?thesis
    by (auto simp: example_env_def)
qed

subsection \<open>Readings and corrupted scratchpads\<close>

text \<open>
  C16. A scratchpad corrupted in a single byte on its way from a device is always
  caught: if the nine bytes a device answers differ in one byte from a scratchpad with a
  valid CRC, the reading is the invalid sentinel and the device's error counter goes up
  by one in that iteration.
\<close>

theorem app_sample_detects_corruption:
  assumes "app_reachable s" and "phase s = Sampling" and "app_sample s env = Inr s'"
    and "j < num_devices s" and "owb_crc8_bytes 0 (xs @ a # zs) = 0"
    and "length (xs @ a # zs) = 9" and "a \<noteq> b" and "env_scratchpad env j = xs @ b # zs"
  shows "crc_errors s' ! j = Suc (crc_errors s ! j)"
proof -
  have inv: "app_inv s" by (rule app_reachable_app_inv [OF assms(1)])
  then have "length (crc_errors s) = MAX_DEVICES" and n: "num_devices s \<le> MAX_DEVICES"
    by (simp_all add: app_inv_def)
  note E = app_sample_errors [OF assms(3) this]
  have bad: "owb_crc8_bytes 0 (xs @ b # zs) \<noteq> 0"
    using owb_crc8_bytes_single_byte_error [OF assms(7), of 0 xs zs] assms(5) by simp
  have sp: "scratchpad_bytes (env_scratchpad env j) = xs @ b # zs"
    using assms(6,8) by (simp add: scratchpad_bytes_9)
  have "j < MAX_DEVICES" using assms(4) n by simp
  with E app_inv_sampling_handle [OF inv assms(2,4)] assms(4) sp bad
  show ?thesis by (simp add: app_init_handle_eq read_temp_app_handle)
qed

theorem app_sample_detects_corruption_witness:
  "\<exists>s s'. app_reachable s \<and> phase s = Sampling \<and>
     app_sample s (example_env (\<lambda>j. [0x50, 0x05] @ 0x4C # [0x46, 0x7F, 0xFF, 0x0C, 0x10, 0x1C]) 10 0) =
       Inr s' \<and> crc_errors s' ! 0 = Suc (crc_errors s ! 0)"
proof -
  let ?env = "example_env (\<lambda>j. [0x50, 0x05] @ 0x4C # [0x46, 0x7F, 0xFF, 0x0C, 0x10, 0x1C]) 10 0"
  obtain s where s: "app_reachable s" "phase s = Sampling" "num_devices s = 1"
    using app_reachable_one_sensor by blast
  obtain s' where s': "app_sample s ?env = Inr s'"
    using app_sample_defined [OF app_reachable_app_inv [OF s(1)] s(2)] by blast
  have "owb_crc8_bytes 0 ([0x50, 0x05] @ 0x4B # [0x46, 0x7F, 0xFF, 0x0C, 0x10, 0x1C]) = 0"
    by (simp add: crc_simps)
  from app_sample_detects_corruption [OF s(1,2) s' _ this] s s'
  show ?thesis by (auto simp: example_env_def)
qed

text \<open>
  C17. What one iteration prints: after the header of sample \<open>N\<close>, one line per device in
  index order, with the device's reading (the temperature decoded from bytes 0 and 1 of
  its scratchpad at 12 bits when the CRC over the nine bytes checks, the invalid
  sentinel otherwise) and its error count updated by this iteration; after that at most
  the end-of-period sleep.
\<close>

theorem app_sample_readings:
  assumes "app_reachable s" and "phase s = Sampling" and "app_sample s env = Inr s'"
  shows "\<exists>pre tail. app_events s' = pre @ PrintSample (Suc (sample_count s)) #
      map (\<lambda>j. PrintReading j
             (if owb_crc8_bytes 0 (scratchpad_bytes (env_scratchpad env j)) \<noteq> 0
              then DS18B20_INVALID_READING
              else ds18b20_decode_temp DS18B20_RESOLUTION_12_BIT
                     (scratchpad_bytes (env_scratchpad env j) ! 0)
                     (scratchpad_bytes (env_scratchpad env j) ! 1))
             (crc_errors s' ! j)) [0..<num_devices s] @ tail \<and> length tail \<le> 1"
proof -
  have inv: "app_inv s" by (rule app_reachable_app_inv [OF assms(1)])
  then have len: "length (crc_errors s) = MAX_DEVICES" and n: "num_devices s \<le> MAX_DEVICES"
    by (simp_all add: app_inv_def)
  obtain d0 evs temps tail where
    r: "app_read_temps (devices s) (env_scratchpad env) (num_devices s) = Inr (evs, temps)"
    and e: "crc_errors s' = fst (app_count_loop 0 temps (crc_errors s))"
    and ev: "app_events s' = app_events s @ fst (ds18b20_convert_all (app_bus s)) @
           [TaskDelay (ds18b20_wait_ticks portTICK_PERIOD_MS d0)] @ evs @
           PrintSample (Suc (sample_count s)) # snd (app_count_loop 0 temps (crc_errors s)) @ tail"
    and t: "tail = [] \<or> (\<exists>d. tail = [TaskDelay d])"
    by (rule app_sample_events [OF assms(3)])
  note R = app_read_temps_Inr [OF r]
  have "0 + length temps \<le> length (crc_errors s)" using R len n by simp
  note P = app_count_loop_prints [OF this]
  have "temps ! j = (if owb_crc8_bytes 0 (scratchpad_bytes (env_scratchpad env j)) \<noteq> 0
              then DS18B20_INVALID_READING
              else ds18b20_decode_temp DS18B20_RESOLUTION_12_BIT
                     (scratchpad_bytes (env_scratchpad env j) ! 0)
                     (scratchpad_bytes (env_scratchpad env j) ! 1))" if "j < num_devices s" for j
    using R app_inv_sampling_handle [OF inv assms(2) that] that by (simp add: app_init_handle_eq read_temp_app_handle)
  with P R e have "snd (app_count_loop 0 temps (crc_errors s)) =
      map (\<lambda>j. PrintReading j
             (if owb_crc8_bytes 0 (scratchpad_bytes (env_scratchpad env j)) \<noteq> 0
              then DS18B20_INVALID_READING
              else ds18b20_decode_temp DS18B20_RESOLUTION_12_BIT
                     (scratchpad_bytes (env_scratchpad env j) ! 0)
                     (scratchpad_bytes (env_scratchpad env j) ! 1))
             (crc_errors s' ! j)) [0..<num_devices s]"
    by simp
  with ev t show ?thesis by (intro exI [of _ "app_events s @ fst (ds18b20_convert_all (app_bus s)) @
           [TaskDelay (ds18b20_wait_ticks portTICK_PERIOD_MS d0)] @ evs"] exI [of _ tail]) auto
qed

theorem app_sample_readings_witness:
  "\<exists>s s' pre tail. app_reachable s \<and> phase s = Sampling \<and>
     app_sample s (example_env (\<lambda>j. scratchpad_85) 10 0) = Inr s' \<and>
     app_events s' = pre @ PrintSample (Suc (sample_count s)) # PrintReading 0 85 0 # tail"
proof -
  let ?env = "example_env (\<lambda>j. scratchpad_85) 10 0"
  obtain s where s: "app_reachable s" "phase s = Sampling" "num_devices s = 1" "sample_count s = 0"
    using app_reachable_one_sensor by blast
  obtain s' where s': "app_sample s ?env = Inr s'"
    using app_sample_defined [OF app_reachable_app_inv [OF s(1)] s(2)] by blast
  have inv: "app_inv s" by (rule app_reachable_app_inv [OF s(1)])
  then have "length (crc_errors s) = MAX_DEVICES" and n: "num_devices s \<le> MAX_DEVICES"
    and z: "list_all (\<lambda>e. e \<le> sample_count s) (crc_errors s)" by (simp_all add: app_inv_def)
  note E = app_sample_errors [OF s' this(1,2)]
  have h: "devices s ! 0 = Some (app_handle (device_rom_codes s) 1 0)"
    using app_inv_sampling_handle [OF inv s(2)] s(3) by (simp add: app_init_handle_eq)
  have c0: "crc_errors s ! 0 = 0"
    using z s(4) \<open>length (crc_errors s) = MAX_DEVICES\<close> by (simp add: list_all_length MAX_DEVICES_def)
  have "(0::nat) < MAX_DEVICES" by (simp add: MAX_DEVICES_def)
  with E h c0 s(3) have e0: "crc_errors s' ! 0 = 0"
    by (simp add: read_temp_85 DS18B20_INVALID_READING_def example_env_def)
  have crc0: "owb_crc8_bytes 0 (scratchpad_bytes scratchpad_85) = 0"
    by (simp add: scratchpad_85_def scratchpad_bytes_def crc_simps)
  have dec: "ds18b20_decode_temp DS18B20_RESOLUTION_12_BIT (scratchpad_bytes scratchpad_85 ! 0)
               (scratchpad_bytes scratchpad_85 ! 1) = 85"
    by (simp add: scratchpad_85_def scratchpad_bytes_def ds18b20_decode_datasheet)
  from app_sample_readings [OF s(1,2) s'] obtain pre tail where
    "app_events s' = pre @ PrintSample (Suc (sample_count s)) #
      map (\<lambda>j. PrintReading j
             (if owb_crc8_bytes 0 (scratchpad_bytes (env_scratchpad ?env j)) \<noteq> 0
              then DS18B20_INVALID_READING
              else ds18b20_decode_temp DS18B20_RESOLUTION_12_BIT
                     (scratchpad_bytes (env_scratchpad ?env j) ! 0)
                     (scratchpad_bytes (env_scratchpad ?env j) ! 1))
             (crc_errors s' ! j)) [0..<num_devices s] @ tail" by blast
  then have "app_events s' = pre @ PrintSample (Suc (sample_count s)) # PrintReading 0 85 0 # tail"
    using s(3) e0 crc0 dec by (simp add: example_env_def)
  with s s' show ?thesis by blast
qed

subsection \<open>Error counters over a run\<close>

text \<open>
  C18. The error counters are never reset during a run and grow by at most one per step:
  every step of the program (the setup, an iteration of the loop, or a fault) leaves the
  sample count and each device's error counter where they were or one higher.
\<close>

theorem app_step_counters_monotone:
  assumes "app_reachable s" and "app_step s s'" and "j < MAX_DEVICES"
  shows "sample_count s \<le> sample_count s' \<and>
    crc_errors s ! j \<le> crc_errors s' ! j \<and> crc_errors s' ! j \<le> Suc (crc_errors s ! j)"
proof -
  have inv: "app_inv s" by (rule app_reachable_app_inv [OF assms(1)])
  then have len: "length (crc_errors s) = MAX_DEVICES" and n: "num_devices s \<le> MAX_DEVICES"
    and le: "crc_errors s ! j \<le> sample_count s"
    using assms(3) by (simp_all add: app_inv_def list_all_length)
  from assms(2) show ?thesis
  proof cases
    case do_setup
    with inv le have "crc_errors s ! j = 0" and "sample_count s = 0" by (simp_all add: app_inv_def)
    moreover from do_setup(2) have "crc_errors s' = replicate MAX_DEVICES 0" by (rule app_setup_Inr)
    ultimately show ?thesis using assms(3) by simp
  next
    case (do_sample env)
    note E = app_sample_errors [OF do_sample(2) len n]
    show ?thesis using E [THEN conjunct2, rule_format, OF assms(3)] app_sample_fields [OF do_sample(2)]
      by simp
  qed simp_all
qed

theorem app_step_counters_monotone_witness:
  "\<exists>s s'. app_reachable s \<and> app_step s s' \<and>
     sample_count s \<le> sample_count s' \<and> crc_errors s ! 0 \<le> crc_errors s' ! 0"
proof -
  obtain s where s: "app_reachable s" "phase s = Sampling"
    using app_reachable_one_sensor by blast
  obtain s' where s': "app_sample s (example_env (\<lambda>j. scratchpad_bad) 10 0) = Inr s'"
    using app_sample_defined [OF app_reachable_app_inv [OF s(1)] s(2)] by blast
  have st: "app_step s s'" by (rule app_step.do_sample [OF s(2) s'])
  have "(0::nat) < MAX_DEVICES" by (simp add: MAX_DEVICES_def)
  from app_step_counters_monotone [OF s(1) st this] s(1) st show ?thesis by blast
qed

subsection \<open>Timing of the loop\<close>

lemma app_sample_min_period:
  assumes "app_sample s env = Inr s'" and "devices s ! 0 = Some d0"
    and "unat (ds18b20_wait_ticks portTICK_PERIOD_MS d0) + env_busy env < 2 ^ 32"
  shows "clock s + unat period_ticks \<le> clock s'"
proof -
  let ?work = "unat (ds18b20_wait_ticks portTICK_PERIOD_MS d0) + env_busy env"
  let ?x = "word_of_nat (?work + env_race env) :: tick"
  have c: "clock s' = (if ?work < unat period_ticks
      then clock s + ?work + env_race env + unat (period_ticks - ?x) else clock s + ?work)"
    using app_sample_clock [OF assms] by (simp add: Let_def)
  have x: "unat ?x \<le> ?work + env_race env" by (simp only: unat_of_nat mod_less_eq_dividend)
  have "unat period_ticks \<le> ?work + env_race env + unat (period_ticks - ?x)"
  proof (cases "unat ?x \<le> unat period_ticks")
    case True
    then show ?thesis using x by (simp add: unat_sub_if')
  next
    case False
    have "unat ?x < 2 ^ 32" using unsigned_less [of ?x] by simp
    with False show ?thesis by (simp add: unat_sub_if')
  qed
  with c show ?thesis by auto
qed

text \<open>
  C20. Whatever happens between the two tick readings, the next sample never starts
  before one full period after the start of this one (the ordering guarantee of the
  loop): when the work is shorter than the period the task sleeps until at least the end
  of the period, possibly much longer (C4), and otherwise the work itself took a period.
\<close>

theorem app_sample_no_early_start:
  assumes "app_sample s env = Inr s'" and "devices s ! 0 = Some d0"
    and "unat (ds18b20_wait_ticks portTICK_PERIOD_MS d0) + env_busy env < 2 ^ 32"
  shows "clock s + unat period_ticks \<le> clock s'"
  by (rule app_sample_min_period [OF assms])

theorem app_sample_no_early_start_witness:
  "\<exists>s'. app_sample (example_state [rom_pink] 7) (example_env (\<lambda>_. scratchpad_85) 3 40) = Inr s' \<and>
        7 + unat period_ticks \<le> clock s'"
proof -
  obtain s' where s': "app_sample (example_state [rom_pink] 7) (example_env (\<lambda>_. scratchpad_85) 3 40) = Inr s'"
    using example_state_sample_total [of "[rom_pink]"] by (auto simp: MAX_DEVICES_def)
  have d0: "devices (example_state [rom_pink] 7) ! 0 = Some (app_handle [rom_pink] 1 0)"
    using example_state_devices [of 0 "[rom_pink]"] by (simp add: MAX_DEVICES_def)
  from app_sample_no_early_start [OF s' d0] s' show ?thesis
    by (auto simp: wait_ticks_app_handle example_env_def example_state_def)
qed

text \<open>
  C21. The oversleep of C4 is reachable, and it comes from lines 183 to 186 alone: there
  is a run of the program, with one sensor on the bus, in which an iteration whose
  reading and printing take 24 ticks and which is preempted for 2 ticks between the
  tick readings of lines 183 and 185 (26 ticks of the environment in all, after the
  75-tick conversion wait) starts the next sample \<open>2^32 + 100\<close> ticks later, where a
  single tick reading would start it one period (100 ticks) later.
\<close>

theorem app_oversleep_reachable:
  "\<exists>s env s'. app_reachable s \<and> phase s = Sampling \<and> env_busy env + env_race env \<le> 26 \<and>
     app_sample s env = Inr s' \<and> app_step s s' \<and> clock s' = clock s + 2 ^ 32 + 100"
proof -
  obtain s where s: "app_reachable s" "phase s = Sampling" "num_devices s = 1"
    using app_reachable_one_sensor by blast
  let ?env = "example_env (\<lambda>_. scratchpad_85) 24 2"
  obtain s' where s': "app_sample s ?env = Inr s'"
    using app_sample_defined [OF app_reachable_app_inv [OF s(1)] s(2)] by blast
  have d0: "devices s ! 0 = Some (app_handle (device_rom_codes s) 1 0)"
    using app_inv_sampling_handle [OF app_reachable_app_inv [OF s(1)] s(2)] s(3)
    by (simp add: app_init_handle_eq)
  have "clock s' = clock s + 99 + 2 + unat (period_ticks - word_of_nat 101)"
    using app_sample_clock [OF s' d0]
    by (simp add: wait_ticks_app_handle example_env_def unat_period_ticks Let_def)
  also have "unat (period_ticks - word_of_nat 101) = 2 ^ 32 - 1"
    by (simp only: unat_sub_if') (simp add: period_ticks_def SAMPLE_PERIOD_def portTICK_PERIOD_MS_def)
  finally have "clock s' = clock s + 2 ^ 32 + 100" by simp
  moreover have "app_step s s'" by (rule app_step.do_sample [OF s(2) s'])
  moreover have "env_busy ?env + env_race ?env \<le> 26" by (simp add: example_env_def)
  ultimately show ?thesis using s(1,2) s' by blast
qed

subsection \<open>Well-formed ROM codes\<close>

lemma app_step_codes:
  assumes "app_step s s'"
    and "list_all (\<lambda>r. length r = 8) (device_rom_codes s) \<and> bus_wf (take (num_devices s) (device_rom_codes s))"
  shows "list_all (\<lambda>r. length r = 8) (device_rom_codes s') \<and> bus_wf (take (num_devices s') (device_rom_codes s'))"
  using assms(1)
proof cases
  case do_setup
  from do_setup(2) show ?thesis
  proof (rule app_setup_Inr)
    fix roms n
    assume "app_find_devices (owb_use_crc (owb_rmt_initialize app_gpio_num (wire_devices s)) True) = Inr (roms, n)"
      and "device_rom_codes s' = roms" and "num_devices s' = n"
    then show ?thesis by (auto dest: app_find_devices_codes simp: owb_use_crc_def)
  qed
next
  case (do_sample env)
  then show ?thesis using assms(2) by (simp add: app_sample_fields)
qed (use assms(2) in simp_all)

text \<open>
  C24. Whatever devices are on the wire, corrupted or not, every ROM code the program
  holds in \<open>device_rom_codes\<close> is eight bytes long, and each of the first \<open>num_devices\<close>
  of them, the codes the handles address, has a valid CRC-8 and a non-zero family code:
  with \<open>owb_use_crc\<close> on, the search never returns a code that fails its CRC.
\<close>

theorem app_reachable_codes_wf:
  assumes "app_reachable s"
  shows "list_all (\<lambda>r. length r = 8) (device_rom_codes s) \<and>
         bus_wf (take (num_devices s) (device_rom_codes s))"
  using assms
proof (induction rule: app_reachable.induct)
  case (boot devs t0)
  then show ?case by (simp add: app_boot_def bus_wf_def list_all_iff)
next
  case (step s s')
  from step.hyps(2) step.IH show ?case by (rule app_step_codes)
qed

theorem app_reachable_codes_wf_witness:
  "\<exists>s. app_reachable s \<and> num_devices s = 1 \<and> bus_wf (take 1 (device_rom_codes s))"
proof -
  obtain s where s: "app_reachable s" "num_devices s = 1"
    using app_reachable_one_sensor by blast
  with app_reachable_codes_wf [OF s(1)] show ?thesis by auto
qed

end
