(* ===== verification/AppLoop.thy ===== *)
theory AppLoop
  imports AppRun
begin

text \<open>
  The sampling loop \<open>while (1)\<close> of lines 152 to 187 as a function: \<open>app_run\<close> runs
  iterations of \<open>app_sample\<close> one after another, each under its own environment, and
  stops at the first undefined behaviour. Over a run the error counters are the running totals of CRC failures (C26), the
  elapsed ticks are the sum of the iterations' periods (C27), and the sample headers
  are numbered consecutively (C28), and \<open>k\<close> iterations take at least \<open>k\<close> periods
  (C33).
\<close>

text \<open>Iterations of the loop under a sequence of environments.\<close>

fun app_run :: "app_state \<Rightarrow> sample_env list \<Rightarrow> app_error + app_state" where
  "app_run s [] = Inr s"
| "app_run s (env # envs) =
     (case app_sample s env of Inl e \<Rightarrow> Inl e | Inr s' \<Rightarrow> app_run s' envs)"

text \<open>
  Whether device \<open>j\<close> reads the invalid sentinel in an iteration under \<open>env\<close>, for the
  handles of \<open>s\<close>; and the console line that opens a sample's block.
\<close>

definition app_invalid :: "app_state \<Rightarrow> nat \<Rightarrow> sample_env \<Rightarrow> bool" where
  "app_invalid s j env \<longleftrightarrow> j < num_devices s \<and>
     snd (ds18b20_read_temp (the (devices s ! j)) (env_scratchpad env j)) = DS18B20_INVALID_READING"

fun sample_header :: "event \<Rightarrow> bool" where
  "sample_header (PrintSample n) = True"
| "sample_header _ = False"

subsection \<open>Runs of the loop\<close>

lemma app_run_append:
  "app_run s (xs @ ys) = (case app_run s xs of Inl e \<Rightarrow> Inl e | Inr s' \<Rightarrow> app_run s' ys)"
  by (induction xs arbitrary: s) (simp_all split: sum.split)

lemma app_run_fields:
  assumes "app_run s envs = Inr s'"
  shows "phase s' = phase s \<and> wire_devices s' = wire_devices s \<and> app_bus s' = app_bus s \<and>
         device_rom_codes s' = device_rom_codes s \<and> num_devices s' = num_devices s \<and>
         devices s' = devices s \<and> sample_count s' = sample_count s + length envs"
  using assms
proof (induction envs arbitrary: s)
  case (Cons env envs)
  obtain s1 where "app_sample s env = Inr s1" and "app_run s1 envs = Inr s'"
    using Cons.prems by (cases "app_sample s env") auto
  with Cons.IH show ?case by (auto dest: app_sample_fields)
qed simp

lemma app_run_total:
  assumes "app_inv s" and "phase s = Sampling"
  shows "\<exists>s'. app_run s envs = Inr s' \<and> app_inv s'"
  using assms
proof (induction envs arbitrary: s)
  case (Cons env envs)
  obtain s1 where s1: "app_sample s env = Inr s1" using app_sample_defined [OF Cons.prems] by blast
  have "app_inv s1" by (rule app_sample_inv [OF s1 Cons.prems])
  moreover have "phase s1 = Sampling" using app_sample_fields [OF s1] Cons.prems(2) by simp
  ultimately show ?case using Cons.IH s1 by simp
qed simp

lemma app_reachable_Start:
  assumes "app_reachable s" and "phase s = Start"
  shows "\<exists>devs t0. s = app_boot devs t0"
  using assms
proof (induction rule: app_reachable.induct)
  case (step s s')
  from step.hyps(2) step.prems show ?case
  proof cases
    case do_setup
    then show ?thesis using step.prems by (auto elim: app_setup_Inr split: if_splits)
  next
    case (do_sample env)
    then show ?thesis using step.prems by (simp add: app_sample_fields)
  qed simp_all
qed blast


subsection \<open>Counters, time and output over a run\<close>

lemma app_sampling_wait:
  assumes "app_inv s" and "phase s = Sampling"
  shows "\<exists>d0. devices s ! 0 = Some d0 \<and> ds18b20_wait_ticks portTICK_PERIOD_MS d0 = 75"
proof -
  have "0 < num_devices s" using assms by (simp add: app_inv_def)
  from app_inv_sampling_handle [OF assms this] show ?thesis
    by (simp add: app_init_handle_eq wait_ticks_app_handle)
qed

lemma app_run_errors:
  assumes "app_run s envs = Inr s'" and "app_inv s" and "phase s = Sampling"
  shows "\<forall>j<MAX_DEVICES. crc_errors s' ! j = crc_errors s ! j + length (filter (app_invalid s j) envs)"
  using assms
proof (induction envs arbitrary: s)
  case (Cons env envs)
  obtain s1 where s1: "app_sample s env = Inr s1" and r: "app_run s1 envs = Inr s'"
    using Cons.prems(1) by (cases "app_sample s env") auto
  have inv1: "app_inv s1" by (rule app_sample_inv [OF s1 Cons.prems(2,3)])
  have f: "phase s1 = Sampling \<and> devices s1 = devices s \<and> num_devices s1 = num_devices s"
    using app_sample_fields [OF s1] Cons.prems(3) by simp
  then have inv_eq: "app_invalid s1 = app_invalid s" by (simp add: app_invalid_def fun_eq_iff)
  have "length (crc_errors s) = MAX_DEVICES" and "num_devices s \<le> MAX_DEVICES"
    using Cons.prems(2) by (simp_all add: app_inv_def)
  note E = app_sample_errors [OF s1 this]
  show ?case using Cons.IH [OF r inv1] f E inv_eq by (auto simp: app_invalid_def)
qed simp

lemma app_run_clock_sum:
  assumes "app_run s envs = Inr s'" and "app_inv s" and "phase s = Sampling"
    and "\<forall>env\<in>set envs. 75 + env_busy env < 2 ^ 32 \<and>
           (75 + env_busy env < 100 \<longrightarrow> 75 + env_busy env + env_race env \<le> 100)"
  shows "clock s' = clock s + (\<Sum>env\<leftarrow>envs. max 100 (75 + env_busy env))"
  using assms
proof (induction envs arbitrary: s)
  case (Cons env envs)
  obtain s1 where s1: "app_sample s env = Inr s1" and r: "app_run s1 envs = Inr s'"
    using Cons.prems(1) by (cases "app_sample s env") auto
  have inv1: "app_inv s1" by (rule app_sample_inv [OF s1 Cons.prems(2,3)])
  have ph: "phase s1 = Sampling" using app_sample_fields [OF s1] Cons.prems(3) by simp
  obtain d0 where d0: "devices s ! 0 = Some d0" and w: "ds18b20_wait_ticks portTICK_PERIOD_MS d0 = 75"
    using app_sampling_wait [OF Cons.prems(2,3)] by blast
  have "clock s1 = clock s + max 100 (75 + env_busy env)"
    using app_sample_clock_max [OF s1 d0] Cons.prems(4) by (simp add: w unat_period_ticks)
  with Cons.IH [OF r inv1 ph] Cons.prems(4) show ?case by simp
qed simp

lemma sample_header_bus_event: "list_all bus_event xs \<Longrightarrow> filter sample_header xs = []"
proof (induction xs)
  case (Cons e xs)
  then show ?case by (cases e) (simp_all add: bus_event_def)
qed simp

lemma read_temp_bus_events: "list_all bus_event (fst (ds18b20_read_temp info w))"
  by (simp add: ds18b20_read_temp_def ds18b20_address_def Let_def bus_event_def list_all_iff)

lemma convert_all_bus_events: "list_all bus_event (fst (ds18b20_convert_all bus))"
  by (simp add: ds18b20_convert_all_def bus_event_def)

lemma count_loop_no_header: "filter sample_header (snd (app_count_loop i ts errs)) = []"
  by (induction ts arbitrary: i errs) (simp_all add: Let_def split_def)

lemma app_sample_header:
  assumes "app_sample s env = Inr s1"
  shows "\<exists>new. app_events s1 = app_events s @ new \<and>
           filter sample_header new = [PrintSample (Suc (sample_count s))]"
proof -
  from assms show ?thesis
  proof (rule app_sample_events)
    fix d0 evs temps tail
    assume r: "app_read_temps (devices s) (env_scratchpad env) (num_devices s) = Inr (evs, temps)"
      and e: "app_events s1 = app_events s @ fst (ds18b20_convert_all (app_bus s)) @
           [TaskDelay (ds18b20_wait_ticks portTICK_PERIOD_MS d0)] @ evs @
           PrintSample (Suc (sample_count s)) # snd (app_count_loop 0 temps (crc_errors s)) @ tail"
      and t: "tail = [] \<or> (\<exists>d. tail = [TaskDelay d])"
    have "list_all bus_event evs"
      using app_read_temps_Inr [OF r] read_temp_bus_events by (simp add: list_all_iff)
    then have "filter sample_header evs = []" by (rule sample_header_bus_event)
    moreover have "filter sample_header (fst (ds18b20_convert_all (app_bus s))) = []"
      by (rule sample_header_bus_event [OF convert_all_bus_events])
    moreover have "filter sample_header tail = []" using t by auto
    ultimately show ?thesis using e by (simp add: count_loop_no_header)
  qed
qed

lemma app_run_headers_new:
  assumes "app_run s envs = Inr s'"
  shows "\<exists>new. app_events s' = app_events s @ new \<and>
    filter sample_header new = map PrintSample [Suc (sample_count s)..<Suc (sample_count s + length envs)]"
  using assms
proof (induction envs arbitrary: s)
  case (Cons env envs)
  obtain s1 where s1: "app_sample s env = Inr s1" and r: "app_run s1 envs = Inr s'"
    using Cons.prems(1) by (cases "app_sample s env") auto
  obtain new1 where n1: "app_events s1 = app_events s @ new1"
    and h1: "filter sample_header new1 = [PrintSample (Suc (sample_count s))]"
    using app_sample_header [OF s1] by blast
  obtain new2 where n2: "app_events s' = app_events s1 @ new2"
    and h2: "filter sample_header new2 =
       map PrintSample [Suc (sample_count s1)..<Suc (sample_count s1 + length envs)]"
    using Cons.IH [OF r] by blast
  have c: "sample_count s1 = Suc (sample_count s)" using app_sample_fields [OF s1] by simp
  have "[Suc (sample_count s)..<Suc (sample_count s + length (env # envs))] =
        Suc (sample_count s) # [Suc (Suc (sample_count s))..<Suc (Suc (sample_count s) + length envs)]"
    by (simp add: upt_conv_Cons del: upt_Suc)
  then show ?case using n1 n2 h1 h2 c by (intro exI [of _ "new1 @ new2"]) (simp del: upt_Suc)
qed simp

subsection \<open>Properties of runs\<close>

text \<open>
  C26. Any number of further iterations from a reachable state of the sampling loop all
  succeed, count one sample each, and leave each device's error counter raised by the
  number of those iterations in which its reading was the invalid sentinel: the
  counters are the running totals of CRC failures since the loop began.
\<close>

theorem app_run_crc_errors:
  assumes "app_reachable s" and "phase s = Sampling"
  shows "\<exists>s'. app_run s envs = Inr s' \<and> sample_count s' = sample_count s + length envs \<and>
    (\<forall>j<MAX_DEVICES. crc_errors s' ! j = crc_errors s ! j + length (filter (app_invalid s j) envs))"
proof -
  have inv: "app_inv s" by (rule app_reachable_app_inv [OF assms(1)])
  obtain s' where r: "app_run s envs = Inr s'" using app_run_total [OF inv assms(2)] by blast
  show ?thesis using r app_run_fields [OF r] app_run_errors [OF r inv assms(2)] by blast
qed

text \<open>
  C27. The cadence of the loop over many samples: from a reachable sampling state, when
  every iteration's work fits in its period as in C3, \<open>k\<close> iterations take exactly the
  sum over the iterations of the longer of the period (100 ticks) and the work (the
  75-tick conversion wait plus the reading and printing); in particular, ten samples
  whose work fits the period take ten seconds, as the specification's single-device
  scenario asks.
\<close>

theorem app_run_clock:
  assumes "app_reachable s" and "phase s = Sampling" and "app_run s envs = Inr s'"
    and "\<forall>env\<in>set envs. 75 + env_busy env < 2 ^ 32 \<and>
           (75 + env_busy env < 100 \<longrightarrow> 75 + env_busy env + env_race env \<le> 100)"
  shows "clock s' = clock s + (\<Sum>env\<leftarrow>envs. max 100 (75 + env_busy env))"
  by (rule app_run_clock_sum [OF assms(3) app_reachable_app_inv [OF assms(1)] assms(2,4)])

text \<open>
  C28. Every iteration prints exactly one sample header, and a run of iterations prints
  the headers numbered consecutively from the next sample number, in order: the
  \<open>++sample_count\<close> of line 171 neither skips nor repeats a number.
\<close>

theorem app_run_headers:
  assumes "app_run s envs = Inr s'"
  shows "filter sample_header (drop (length (app_events s)) (app_events s')) =
         map PrintSample [Suc (sample_count s)..<Suc (sample_count s + length envs)]"
  using app_run_headers_new [OF assms] by auto


lemma app_one_sensor_run:
  "\<exists>s. app_reachable s \<and> phase s = Sampling \<and> num_devices s = 1 \<and> sample_count s = 0 \<and>
     devices s ! 0 = Some (app_handle (device_rom_codes s) 1 0) \<and>
     (\<forall>envs. \<exists>s'. app_run s envs = Inr s')"
proof -
  obtain s where s: "app_reachable s" "phase s = Sampling" "num_devices s = 1" "sample_count s = 0"
    using app_reachable_one_sensor by blast
  have inv: "app_inv s" by (rule app_reachable_app_inv [OF s(1)])
  have "devices s ! 0 = Some (app_handle (device_rom_codes s) 1 0)"
    using app_inv_sampling_handle [OF inv s(2)] s(3) by (simp add: app_init_handle_eq)
  moreover have "\<forall>envs. \<exists>s'. app_run s envs = Inr s'" using app_run_total [OF inv s(2)] by blast
  ultimately show ?thesis using s by blast
qed

theorem app_run_crc_errors_witness:
  "\<exists>s s'. app_reachable s \<and> phase s = Sampling \<and>
     app_run s (replicate 2 (example_env (\<lambda>_. scratchpad_bad) 10 0)) = Inr s' \<and>
     sample_count s' = 2 \<and> crc_errors s' ! 0 = crc_errors s ! 0 + 2"
proof -
  obtain s where s: "app_reachable s" "phase s = Sampling" "num_devices s = 1" "sample_count s = 0"
    "devices s ! 0 = Some (app_handle (device_rom_codes s) 1 0)"
    using app_one_sensor_run by blast
  let ?env = "example_env (\<lambda>_. scratchpad_bad) 10 0"
  obtain s' where r: "app_run s (replicate 2 ?env) = Inr s'"
    and c: "sample_count s' = sample_count s + length (replicate 2 ?env)"
    and e: "\<forall>j<MAX_DEVICES. crc_errors s' ! j =
       crc_errors s ! j + length (filter (app_invalid s j) (replicate 2 ?env))"
    using app_run_crc_errors [OF s(1,2), of "replicate 2 ?env"] by blast
  have "app_invalid s 0 ?env"
    using s(3,5) by (simp add: app_invalid_def example_env_def read_temp_bad)
  then have "crc_errors s' ! 0 = crc_errors s ! 0 + 2" using e by (simp add: MAX_DEVICES_def)
  with r c s show ?thesis by auto
qed

theorem app_run_clock_witness:
  "\<exists>s s'. app_reachable s \<and> phase s = Sampling \<and>
     app_run s (replicate 10 (example_env (\<lambda>_. scratchpad_85) 5 0)) = Inr s' \<and>
     clock s' = clock s + 1000"
proof -
  obtain s where s: "app_reachable s" "phase s = Sampling" "\<forall>envs. \<exists>s'. app_run s envs = Inr s'"
    using app_one_sensor_run by blast
  let ?envs = "replicate 10 (example_env (\<lambda>_. scratchpad_85) 5 0)"
  obtain s' where r: "app_run s ?envs = Inr s'" using s(3) by blast
  have "clock s' = clock s + (\<Sum>env\<leftarrow>?envs. max 100 (75 + env_busy env))"
    by (rule app_run_clock [OF s(1,2) r]) (simp add: example_env_def)
  then have "clock s' = clock s + 1000" by (simp add: example_env_def sum_list_replicate)
  with s r show ?thesis by blast
qed

theorem app_run_headers_witness:
  "\<exists>s s'. app_run s (replicate 3 (example_env (\<lambda>_. scratchpad_85) 5 0)) = Inr s' \<and>
     sample_count s = 0 \<and> app_reachable s \<and>
     filter sample_header (drop (length (app_events s)) (app_events s')) =
       [PrintSample 1, PrintSample 2, PrintSample 3]"
proof -
  obtain s where s: "app_reachable s" "sample_count s = 0" "\<forall>envs. \<exists>s'. app_run s envs = Inr s'"
    using app_one_sensor_run by blast
  let ?envs = "replicate 3 (example_env (\<lambda>_. scratchpad_85) 5 0)"
  obtain s' where r: "app_run s ?envs = Inr s'" using s(3) by blast
  have "filter sample_header (drop (length (app_events s)) (app_events s')) =
        [PrintSample 1, PrintSample 2, PrintSample 3]"
    using app_run_headers [OF r] s(2) by (simp add: numeral_3_eq_3 upt_rec)
  with s r show ?thesis by blast
qed


text \<open>
  C33. However the ticks fall, a run of iterations from a reachable sampling state never
  takes less than one period per iteration: \<open>k\<close> samples take at least \<open>k\<close> periods,
  so a slow iteration is never followed by a burst of short ones to catch up, as the
  specification requires (section 5, across samples).
\<close>

theorem app_run_min_period:
  assumes "app_reachable s" and "phase s = Sampling" and "app_run s envs = Inr s'"
    and "\<forall>env\<in>set envs. 75 + env_busy env < 2 ^ 32"
  shows "clock s + length envs * unat period_ticks \<le> clock s'"
  using assms
proof (induction envs arbitrary: s)
  case (Cons env envs)
  obtain s1 where s1: "app_sample s env = Inr s1" and r: "app_run s1 envs = Inr s'"
    using Cons.prems(3) by (cases "app_sample s env") auto
  have "app_reachable s1" by (rule app_reachable.step [OF Cons.prems(1) app_step.do_sample [OF Cons.prems(2) s1]])
  moreover have "phase s1 = Sampling" using app_sample_fields [OF s1] Cons.prems(2) by simp
  ultimately have IH: "clock s1 + length envs * unat period_ticks \<le> clock s'"
    using Cons.IH r Cons.prems(4) by simp
  obtain d0 where d0: "devices s ! 0 = Some d0" and w: "ds18b20_wait_ticks portTICK_PERIOD_MS d0 = 75"
    using app_sampling_wait [OF app_reachable_app_inv [OF Cons.prems(1)] Cons.prems(2)] by blast
  have "clock s + unat period_ticks \<le> clock s1"
    using app_sample_min_period [OF s1 d0] Cons.prems(4) by (simp add: w)
  with IH show ?case by simp
qed simp

theorem app_run_min_period_witness:
  "\<exists>s s'. app_reachable s \<and> phase s = Sampling \<and>
     app_run s (replicate 3 (example_env (\<lambda>_. scratchpad_85) 3 40)) = Inr s' \<and>
     clock s + 300 \<le> clock s'"
proof -
  obtain s where s: "app_reachable s" "phase s = Sampling" "\<forall>envs. \<exists>s'. app_run s envs = Inr s'"
    using app_one_sensor_run by blast
  let ?envs = "replicate 3 (example_env (\<lambda>_. scratchpad_85) 3 40)"
  obtain s' where r: "app_run s ?envs = Inr s'" using s(3) by blast
  have "clock s + length ?envs * unat period_ticks \<le> clock s'"
    by (rule app_run_min_period [OF s(1,2) r]) (simp add: example_env_def)
  then have "clock s + 300 \<le> clock s'" by (simp add: unat_period_ticks)
  with s r show ?thesis by blast
qed

end
