(* ===== verification/Console.thy ===== *)
theory Console
  imports AppLoop
begin

text \<open>
  The console output of \<open>app_main\<close>: the text each \<open>printf\<close> of the source writes for the
  print events of the model. Integers are printed by \<open>%d\<close> in decimal (the counters and
  indices printed are never negative), temperatures by \<open>%.1f\<close>: the sign of the value,
  then its magnitude rounded to one decimal, ties to even, as the C library's
  \<open>printf\<close> does in the default rounding mode. Readers of the text (\<open>read_nat\<close>,
  \<open>read_1dp\<close>, \<open>parse_reading\<close>) are what a consumer of the console would use; they
  state what the text determines.
\<close>

definition nl :: string where
  "nl = [CHR 0x0A]"

text \<open>\<open>printf("%d")\<close> of a non-negative value.\<close>

fun show_nat :: "nat \<Rightarrow> string" where
  "show_nat n = (if n < 10 then [hex_digit n] else show_nat (n div 10) @ [hex_digit (n mod 10)])"

declare show_nat.simps [simp del]

text \<open>\<open>printf("%.1f")\<close>: sign, integer part, point, one decimal of the rounded magnitude.\<close>

definition round_half_even :: "real \<Rightarrow> int" where
  "round_half_even x =
     (let f = \<lfloor>x\<rfloor>; d = x - of_int f
      in if d < 1/2 then f else if 1/2 < d then f + 1 else if even f then f else f + 1)"

definition format_1dp :: "real \<Rightarrow> string" where
  "format_1dp x =
     (let m = nat (round_half_even (10 * \<bar>x\<bar>))
      in (if x < 0 then ''-'' else []) @ show_nat (m div 10) @ ''.'' @ [hex_digit (m mod 10)])"

text \<open>The lines of the source's \<open>printf\<close> calls (lines 51, 67, 77, 83, 100, 124, 171, 179;
  the fixed lines of 51, 67 and 124 are \<open>PrintText\<close> events).\<close>

definition line_rom :: "nat \<Rightarrow> string \<Rightarrow> string" where
  "line_rom i s = ''  '' @ show_nat i @ '' : '' @ s @ nl"

definition line_found :: "nat \<Rightarrow> string" where
  "line_found n = ''Found '' @ show_nat n @ '' devices'' @ nl"

definition line_present :: "string \<Rightarrow> bool \<Rightarrow> string" where
  "line_present s b = ''Device '' @ s @ '' is '' @ (if b then ''present'' else ''not present'') @ nl"

definition line_header :: "nat \<Rightarrow> string" where
  "line_header n = nl @ ''Temperature readings (degrees C): sample '' @ show_nat n @ nl"

definition line_reading :: "nat \<Rightarrow> real \<Rightarrow> nat \<Rightarrow> string" where
  "line_reading i t e = ''  '' @ show_nat i @ '': '' @ format_1dp t @ ''    '' @ show_nat e @ '' errors'' @ nl"

fun event_line :: "event \<Rightarrow> string" where
  "event_line (PrintText t) = t @ nl"
| "event_line (PrintRom i s) = line_rom i s"
| "event_line (PrintFound n) = line_found n"
| "event_line (PrintPresent s b) = line_present s b"
| "event_line (PrintSample n) = line_header n"
| "event_line (PrintReading i t e) = line_reading i t e"
| "event_line _ = []"

definition console :: "event list \<Rightarrow> string" where
  "console evs = concat (map event_line evs)"

text \<open>Reading the text back.\<close>

definition dec_value :: "char \<Rightarrow> nat option" where
  "dec_value c = (case hex_value c of Some k \<Rightarrow> if k < 10 then Some k else None | None \<Rightarrow> None)"

fun read_digits :: "nat \<Rightarrow> string \<Rightarrow> nat option" where
  "read_digits acc [] = Some acc"
| "read_digits acc (c # cs) = (case dec_value c of None \<Rightarrow> None | Some d \<Rightarrow> read_digits (10 * acc + d) cs)"

definition read_nat :: "string \<Rightarrow> nat option" where
  "read_nat cs = (if cs = [] then None else read_digits 0 cs)"

definition read_1dp :: "string \<Rightarrow> real option" where
  "read_1dp s =
     (let neg = (take 1 s = ''-''); r = (if neg then drop 1 s else s)
      in if 3 \<le> length r \<and> r ! (length r - 2) = CHR ''.'' then
           (case (read_nat (take (length r - 2) r), read_nat [last r]) of
              (Some a, Some d) \<Rightarrow> Some ((if neg then -1 else 1) * (of_nat a + of_nat d / 10))
            | _ \<Rightarrow> None)
         else None)"

definition parse_reading :: "string \<Rightarrow> (nat \<times> real \<times> nat) option" where
  "parse_reading s =
     (if take 2 s \<noteq> ''  '' then None
      else
        let r0 = drop 2 s; istr = takeWhile (\<lambda>c. c \<noteq> CHR '':'') r0;
            r1 = drop (length istr + 2) r0; tstr = takeWhile (\<lambda>c. c \<noteq> CHR '' '') r1;
            r2 = drop (length tstr + 4) r1; estr = takeWhile (\<lambda>c. c \<noteq> CHR '' '') r2;
            r3 = drop (length estr) r2
        in if r3 = '' errors'' @ nl then
             (case (read_nat istr, read_1dp tstr, read_nat estr) of
                (Some i, Some t, Some e) \<Rightarrow> Some (i, t, e)
              | _ \<Rightarrow> None)
           else None)"

subsection \<open>Decimal digits\<close>

lemma hex_digit_dec: "n < 10 \<Longrightarrow> hex_digit n \<in> set ''0123456789''"
  by (auto simp: hex_digit_def less_Suc_eq numeral_eq_Suc)

lemma dec_value_hex_digit: "n < 10 \<Longrightarrow> dec_value (hex_digit n) = Some n"
  by (simp add: dec_value_def hex_value_hex_digit)

lemma show_nat_digits: "set (show_nat n) \<subseteq> set ''0123456789''"
proof (induction n rule: show_nat.induct)
  case (1 n)
  then show ?case
    using hex_digit_dec [of n] hex_digit_dec [of "n mod 10"] by (subst show_nat.simps) auto
qed

lemma show_nat_not_Nil [simp]: "show_nat n \<noteq> []"
  by (subst show_nat.simps) simp

lemma read_digits_append:
  "read_digits acc (xs @ ys) = (case read_digits acc xs of None \<Rightarrow> None | Some a \<Rightarrow> read_digits a ys)"
  by (induction acc xs rule: read_digits.induct) (simp_all split: option.split)

lemma read_digits_show_nat: "read_digits 0 (show_nat n) = Some n"
proof (induction n rule: show_nat.induct)
  case (1 n)
  show ?case
  proof (cases "n < 10")
    case True
    then show ?thesis by (subst show_nat.simps) (simp add: dec_value_hex_digit)
  next
    case False
    then have "read_digits 0 (show_nat n) =
        read_digits 0 (show_nat (n div 10) @ [hex_digit (n mod 10)])"
      by (subst show_nat.simps) simp
    also have "\<dots> = Some n" using "1.IH" False by (simp add: read_digits_append dec_value_hex_digit)
    finally show ?thesis .
  qed
qed

lemma read_nat_show_nat: "read_nat (show_nat n) = Some n"
  by (simp add: read_nat_def read_digits_show_nat)

lemma show_nat_single: "d < 10 \<Longrightarrow> show_nat d = [hex_digit d]"
  by (subst show_nat.simps) simp

lemma take1_show_nat: "take 1 (show_nat n @ xs) \<noteq> ''-''"
proof -
  obtain c cs where "show_nat n = c # cs" by (cases "show_nat n") simp_all
  moreover have "set (show_nat n) \<subseteq> set ''0123456789''" by (rule show_nat_digits)
  ultimately show ?thesis by auto
qed

lemma show_nat_no_colon [simp]: "CHR '':'' \<notin> set (show_nat n)"
  using show_nat_digits [of n] by auto

lemma show_nat_no_space [simp]: "CHR '' '' \<notin> set (show_nat n)"
  using show_nat_digits [of n] by auto

lemma takeWhile_upto [simp]: "y \<notin> set xs \<Longrightarrow> takeWhile (\<lambda>c. c \<noteq> y) (xs @ y # ys) = xs"
  by (induction xs) auto

lemma drop_length_2 [simp]: "drop (length xs + 2) (xs @ a # b # ys) = ys"
  by simp

lemma drop_length_4 [simp]: "drop (length xs + 4) (xs @ a # b # c # d # ys) = ys"
  by simp

subsection \<open>Rounding to one decimal\<close>

lemma round_half_even_bound: "\<bar>of_int (round_half_even y) - y\<bar> \<le> 1/2"
proof -
  have "of_int \<lfloor>y\<rfloor> \<le> y" and "y < of_int \<lfloor>y\<rfloor> + 1" by linarith+
  then show ?thesis by (auto simp: round_half_even_def Let_def)
qed

lemma round_half_even_nonneg: "0 \<le> y \<Longrightarrow> 0 \<le> round_half_even y"
  by (auto simp: round_half_even_def Let_def)

lemma real_div_mod_10: "real (m div 10) + real (m mod 10) / 10 = real m / 10"
proof -
  have e: "real m = 10 * real (m div 10) + real (m mod 10)"
    using div_mult_mod_eq [of m 10] by (metis of_nat_add of_nat_mult of_nat_numeral mult.commute)
  show ?thesis by (simp add: e add_divide_distrib)
qed

lemma read_1dp_format:
  "\<exists>v. read_1dp (format_1dp x) = Some v \<and> \<bar>v - x\<bar> \<le> 1/20"
proof -
  define k where "k = round_half_even (10 * \<bar>x\<bar>)"
  define m where "m = nat k"
  define r where "r = show_nat (m div 10) @ ''.'' @ [hex_digit (m mod 10)]"
  have k0: "0 \<le> k" unfolding k_def by (rule round_half_even_nonneg) simp
  have mk: "real m = of_int k" using k0 by (simp add: m_def)
  have f: "format_1dp x = (if x < 0 then ''-'' else []) @ r"
    by (simp add: format_1dp_def r_def m_def k_def Let_def)
  have d10: "m mod 10 < 10" by simp
  have len: "3 \<le> length r" and dot: "r ! (length r - 2) = CHR ''.''"
    and tk: "take (length r - 2) r = show_nat (m div 10)" and lst: "last r = hex_digit (m mod 10)"
    using show_nat_not_Nil [of "m div 10"]
    by (auto simp: r_def nth_append Suc_le_eq intro: Suc_leI)
  have rl: "read_nat [last r] = Some (m mod 10)"
    using read_nat_show_nat [of "m mod 10"] show_nat_single [OF d10] lst by simp
  have val: "real (m div 10) + real (m mod 10) / 10 = of_int k / 10"
    using real_div_mod_10 [of m] mk by simp
  have b: "\<bar>of_int k / 10 - \<bar>x\<bar>\<bar> \<le> 1/20"
    using round_half_even_bound [of "10 * \<bar>x\<bar>"] unfolding k_def by linarith
  show ?thesis
  proof (cases "x < 0")
    case True
    have "read_1dp (format_1dp x) = Some (- (of_int k / 10))"
      using True len dot tk rl val by (simp add: f read_1dp_def read_nat_show_nat Let_def)
    then show ?thesis using b True by (intro exI [of _ "- (of_int k / 10)"]) (auto simp: abs_if split: if_splits)
  next
    case False
    have "take 1 r \<noteq> ''-''" unfolding r_def by (rule take1_show_nat)
    then have "read_1dp (format_1dp x) = Some (of_int k / 10)"
      using False len dot tk rl val by (simp add: f read_1dp_def read_nat_show_nat Let_def)
    then show ?thesis using b False by (intro exI [of _ "of_int k / 10"]) auto
  qed
qed

lemma format_1dp_no_space [simp]: "CHR '' '' \<notin> set (format_1dp x)"
  using hex_digit_dec [of "nat (round_half_even (10 * \<bar>x\<bar>)) mod 10"]
  by (auto simp: format_1dp_def Let_def)

lemma line_reading_85: "line_reading 0 85 0 = ''  0: 85.0    0 errors'' @ nl"
  by (simp add: line_reading_def format_1dp_def round_half_even_def show_nat.simps hex_digit_def)

subsection \<open>The console of one iteration\<close>

lemma console_append [simp]: "console (xs @ ys) = console xs @ console ys"
  by (simp add: console_def)

lemma console_Cons [simp]: "console (e # es) = event_line e @ console es"
  by (simp add: console_def)

lemma console_bus_events: "list_all bus_event xs \<Longrightarrow> console xs = []"
proof (induction xs)
  case (Cons e xs)
  then show ?case by (cases e) (simp_all add: console_def bus_event_def)
qed (simp add: console_def)

lemma console_Nil [simp]: "console [] = []"
  by (simp add: console_def)

lemma console_map: "console (map f xs) = concat (map (\<lambda>x. event_line (f x)) xs)"
  by (simp add: console_def comp_def)

text \<open>
  C30. The console line of a reading (line 179) can be read back: it gives the device
  index and the error count exactly and the temperature to within 0.05 degrees, the
  rounding of \<open>%.1f\<close>.
\<close>

theorem line_reading_roundtrip:
  "\<exists>v. parse_reading (line_reading i t e) = Some (i, v, e) \<and> \<bar>v - t\<bar> \<le> 1/20"
proof -
  obtain v where v: "read_1dp (format_1dp t) = Some v" and b: "\<bar>v - t\<bar> \<le> 1/20"
    using read_1dp_format by blast
  let ?r2 = "show_nat e @ '' errors'' @ nl"
  let ?r1 = "format_1dp t @ CHR '' '' # CHR '' '' # CHR '' '' # CHR '' '' # ?r2"
  let ?r0 = "show_nat i @ CHR '':'' # CHR '' '' # ?r1"
  have l: "line_reading i t e = CHR '' '' # CHR '' '' # ?r0" by (simp add: line_reading_def)
  have "parse_reading (CHR '' '' # CHR '' '' # ?r0) = Some (i, v, e)"
    unfolding parse_reading_def Let_def
    by (simp only: takeWhile_upto drop_length_2 drop_length_4 show_nat_no_colon show_nat_no_space
        format_1dp_no_space not_False_eq_True drop_Suc_Cons drop_0 take_Suc_Cons take_0 numeral_2_eq_2
        Suc_numeral) (simp add: v read_nat_show_nat nl_def)
  then have "parse_reading (line_reading i t e) = Some (i, v, e)" by (simp only: l)
  with b show ?thesis by blast
qed

text \<open>
  C31. What one iteration of the sampling loop prints is the block of the specification
  (section 6): the header \<open>sample N\<close> with the new sample number, then one line per device
  in use, labelled \<open>0\<close> to \<open>num_devices - 1\<close> in order, with the reading taken in this
  iteration and the device's updated error count. The bus traffic and the delays print
  nothing.
\<close>

theorem app_sample_console:
  assumes "app_sample s env = Inr s'" and "length (crc_errors s) = MAX_DEVICES"
    and "num_devices s \<le> MAX_DEVICES"
  shows "console (drop (length (app_events s)) (app_events s')) =
    line_header (Suc (sample_count s)) @
    concat (map (\<lambda>i. line_reading i (snd (ds18b20_read_temp (the (devices s ! i)) (env_scratchpad env i)))
                                   (crc_errors s' ! i)) [0..<num_devices s])"
proof -
  from assms(1) show ?thesis
  proof (rule app_sample_events)
    fix d0 evs temps tail
    assume r: "app_read_temps (devices s) (env_scratchpad env) (num_devices s) = Inr (evs, temps)"
      and c: "crc_errors s' = fst (app_count_loop 0 temps (crc_errors s))"
      and e: "app_events s' = app_events s @ fst (ds18b20_convert_all (app_bus s)) @
           [TaskDelay (ds18b20_wait_ticks portTICK_PERIOD_MS d0)] @ evs @
           PrintSample (Suc (sample_count s)) # snd (app_count_loop 0 temps (crc_errors s)) @ tail"
      and t: "tail = [] \<or> (\<exists>d. tail = [TaskDelay d])"
    note R = app_read_temps_Inr [OF r]
    have "list_all bus_event evs"
      using R read_temp_bus_events by (simp add: list_all_iff)
    then have ce: "console evs = []" by (rule console_bus_events)
    have cc: "console (fst (ds18b20_convert_all (app_bus s))) = []"
      by (rule console_bus_events [OF convert_all_bus_events])
    have ct: "console tail = []" using t by (auto simp: console_def)
    have "0 + length temps \<le> length (crc_errors s)" using R assms(2,3) by simp
    then have p: "snd (app_count_loop 0 temps (crc_errors s)) =
        map (\<lambda>k. PrintReading k (temps ! k) (crc_errors s' ! k)) [0..<num_devices s]"
      using app_count_loop_prints [of 0 temps "crc_errors s"] R c by simp
    have m: "concat (map (\<lambda>k. line_reading k (temps ! k) (crc_errors s' ! k)) [0..<num_devices s]) =
          concat (map (\<lambda>i. line_reading i (snd (ds18b20_read_temp (the (devices s ! i)) (env_scratchpad env i)))
                                   (crc_errors s' ! i)) [0..<num_devices s])"
      using R by (intro arg_cong [where f = concat] map_cong) auto
    from e ce cc ct p show ?thesis by (simp add: console_map) (rule m)
  qed
qed

theorem app_sample_console_witness:
  "\<exists>s'. app_sample (example_state [rom_pink] 0) (example_env (\<lambda>_. scratchpad_85) 5 0) = Inr s' \<and>
     console (drop (length (app_events (example_state [rom_pink] 0))) (app_events s')) =
       line_header 1 @ line_reading 0 85 (crc_errors s' ! 0)"
proof -
  let ?s = "example_state [rom_pink] 0"
  obtain s' where s': "app_sample ?s (example_env (\<lambda>_. scratchpad_85) 5 0) = Inr s'"
    using example_state_sample_total [of "[rom_pink]"] by (auto simp: MAX_DEVICES_def)
  have d0: "devices ?s ! 0 = Some (app_handle [rom_pink] 1 0)"
    using example_state_devices [of 0 "[rom_pink]"] by (simp add: MAX_DEVICES_def)
  have "length (crc_errors ?s) = MAX_DEVICES" and "num_devices ?s \<le> MAX_DEVICES"
    by (simp_all add: example_state_def MAX_DEVICES_def)
  from app_sample_console [OF s' this] d0
  have "console (drop (length (app_events ?s)) (app_events s')) =
       line_header 1 @ line_reading 0 85 (crc_errors s' ! 0)"
    by (simp add: example_state_def example_env_def read_temp_85)
  with s' show ?thesis by blast
qed


text \<open>
  C32. What the setup prints on a bus of sensors with valid ROM codes, as text: the two
  fixed lines of lines 51 and 67, then \<open>  i : code\<close> for each sensor in the order of the
  search with its code in hexadecimal, then \<open>Found N devices\<close>, then whether the known
  device \<open>0001162e87ccee28\<close> is present, then, when exactly one sensor was found,
  \<open>Single device optimisations enabled\<close> of line 124. The settle delay prints nothing.
\<close>

theorem app_setup_console:
  assumes "app_setup s = Inr s'" and "bus_wf (wire_devices s)"
  shows "console (drop (length (app_events s)) (app_events s')) =
    ''Initializing in 2 seconds'' @ nl @ ''Find devices:'' @ nl @
    concat (map (\<lambda>i. line_rom i (owb_string_from_rom_code (rom_sort (wire_devices s) ! i)))
                [0..<length (rom_sort (wire_devices s))]) @
    line_found (length (rom_sort (wire_devices s))) @
    line_present ''0001162e87ccee28''
      (app_check_known (owb_use_crc (owb_rmt_initialize app_gpio_num (wire_devices s)) True)) @
    (if length (rom_sort (wire_devices s)) = 1 then ''Single device optimisations enabled'' @ nl else [])"
  using app_setup_events [OF assms] by (simp add: console_map owb_string_pink known_device_def)

theorem app_setup_console_witness:
  "\<exists>s'. app_setup (app_boot [rom_pink] 0) = Inr s' \<and>
     console (app_events s') =
       ''Initializing in 2 seconds'' @ nl @ ''Find devices:'' @ nl @
       line_rom 0 (owb_string_from_rom_code rom_pink) @ line_found 1 @
       line_present ''0001162e87ccee28''
         (app_check_known (owb_use_crc (owb_rmt_initialize app_gpio_num [rom_pink]) True)) @
       ''Single device optimisations enabled'' @ nl"
proof -
  have wf: "bus_wf (wire_devices (app_boot [rom_pink] 0))"
    by (simp add: app_boot_def rom_pink_def bus_wf_def rom_crc_ok_def crc_simps)
  have len: "length (rom_sort (wire_devices (app_boot [rom_pink] 0))) \<le> MAX_DEVICES"
    by (simp add: app_boot_def rom_sort_def MAX_DEVICES_def)
  obtain s' where s': "app_setup (app_boot [rom_pink] 0) = Inr s'"
    using app_setup_defined [OF wf len] by blast
  from app_setup_console [OF s' wf] s' show ?thesis by (auto simp: app_boot_def rom_sort_def)
qed

end
