(* ===== verification/SamplerSpec.thy ===== *)
theory SamplerSpec
  imports Rom
begin

text \<open>
  The specification's Sampler (sections 4.5 and 7) as an abstract state machine
  \<open>Init \<rightarrow> Enumerating \<rightarrow> Configured \<rightarrow> Sampling* \<rightarrow> Stopped\<close>, over the devices on
  the wire and the array bound. Enumeration yields each device whose ROM code passes its
  CRC once, in some fixed order, and refuses more than the bound (TooManyDevices, no
  transition); with no device the Sampler stays configured and idle; each sample adds
  one to the error counter of each device whose reading was invalid. This is what
  the program is meant to do, stated without its arrays, search or time.
\<close>

datatype sampler_phase = Init | Enumerating | Configured | Sampling_ph | Stopped

record sampler =
  sp_phase :: sampler_phase
  sp_roms :: "rom list"
  sp_errors :: "nat list"
  sp_count :: nat

definition sampler_init :: sampler where
  "sampler_init = \<lparr>sp_phase = Init, sp_roms = [], sp_errors = [], sp_count = 0\<rparr>"

definition sampler_count_errors :: "nat list \<Rightarrow> bool list \<Rightarrow> nat list" where
  "sampler_count_errors errs bad = map2 (\<lambda>e b. if b then Suc e else e) errs bad"

text \<open>
  The Sampler's transitions are labelled by what happens: the start, the enumeration
  with the codes it yields, the start of sampling, a sample with the invalid flag of
  each device's reading in device order, and the stop.
\<close>

datatype sampler_action =
    Act_start
  | Act_enumerate "rom list"
  | Act_begin
  | Act_sample "bool list"
  | Act_stop

inductive sampler_step :: "nat \<Rightarrow> rom list \<Rightarrow> sampler \<Rightarrow> sampler_action \<Rightarrow> sampler \<Rightarrow> bool"
  for max_devs wire where
  start: "sp_phase a = Init \<Longrightarrow> sampler_step max_devs wire a Act_start (a\<lparr>sp_phase := Enumerating\<rparr>)"
| enumerate: "sp_phase a = Enumerating \<Longrightarrow> distinct roms \<Longrightarrow>
    set roms = set (filter (\<lambda>r. rom_crc_ok r \<and> r ! 0 \<noteq> 0) wire) \<Longrightarrow> length roms \<le> max_devs \<Longrightarrow>
    sampler_step max_devs wire a (Act_enumerate roms)
      (a\<lparr>sp_phase := Configured, sp_roms := roms, sp_errors := replicate (length roms) 0,
         sp_count := 0\<rparr>)"
| begin_sampling: "sp_phase a = Configured \<Longrightarrow> sp_roms a \<noteq> [] \<Longrightarrow>
    sampler_step max_devs wire a Act_begin (a\<lparr>sp_phase := Sampling_ph\<rparr>)"
| sample: "sp_phase a = Sampling_ph \<Longrightarrow> length bad = length (sp_roms a) \<Longrightarrow>
    sampler_step max_devs wire a (Act_sample bad)
      (a\<lparr>sp_errors := sampler_count_errors (sp_errors a) bad, sp_count := Suc (sp_count a)\<rparr>)"
| stop: "sp_phase a = Sampling_ph \<Longrightarrow> sampler_step max_devs wire a Act_stop (a\<lparr>sp_phase := Stopped\<rparr>)"

text \<open>The states the Sampler reaches by any sequence of transitions.\<close>

definition sampler_reach :: "nat \<Rightarrow> rom list \<Rightarrow> sampler \<Rightarrow> sampler \<Rightarrow> bool" where
  "sampler_reach max_devs wire = (\<lambda>a b. \<exists>act. sampler_step max_devs wire a act b)\<^sup>*\<^sup>*"

lemma sampler_count_errors_nth:
  "length bad = length errs \<Longrightarrow> j < length errs \<Longrightarrow>
   sampler_count_errors errs bad ! j = errs ! j + (if bad ! j then 1 else 0)"
  by (simp add: sampler_count_errors_def)

lemma length_sampler_count_errors [simp]:
  "length bad = length errs \<Longrightarrow> length (sampler_count_errors errs bad) = length errs"
  by (simp add: sampler_count_errors_def)

lemma sampler_reach_step:
  "sampler_step max_devs wire a act b \<Longrightarrow> sampler_reach max_devs wire a b"
  unfolding sampler_reach_def by blast

lemma sampler_reach_trans:
  "sampler_reach max_devs wire a b \<Longrightarrow> sampler_reach max_devs wire b c \<Longrightarrow>
   sampler_reach max_devs wire a c"
  unfolding sampler_reach_def by (rule rtranclp_trans)

lemma sampler_reach_refl [simp]: "sampler_reach max_devs wire a a"
  by (simp add: sampler_reach_def)

end
