(* ===== verification/Spec2Isabelle.thy ===== *)
theory Spec2Isabelle
  imports Console SamplerSpec
begin

text \<open>
  \<^bold>\<open>Verification of the ESP32 DS18B20 example\<close> (src/main/app_main.c).

  \<^bold>\<open>The program.\<close> \<open>app_main\<close> waits two seconds, creates a 1-Wire bus on GPIO 26 with
  ROM-code CRC checking, enumerates the devices on the bus with the 1-Wire ROM search
  into \<open>device_rom_codes[MAX_DEVICES]\<close>, reports whether a known ROM code is present,
  creates one DS18B20 handle per device (solo mode when there is exactly one), and, if
  any device was found, loops forever: start a conversion on all devices at once, wait
  the conversion time, read every device's scratchpad, count the readings that are the
  invalid sentinel (CRC failure) per device, print, and sleep for the rest of the
  1000 ms sample period. The owb library (bus, CRC-8, search) and the ds18b20 library
  are not in the repository; they are modelled from the specification.

  \<^bold>\<open>Theories and what they model.\<close>
  \<^item> \<open>Prelude\<close>: the machine types (\<open>byte = 8 word\<close>, \<open>tick = 32 word\<close> for
    \<open>TickType_t\<close>, \<open>rom\<close> = 8 bytes, least significant first), the observable events
    (bus reset, byte writes and reads, \<open>vTaskDelay\<close>, console lines), and shared lemmas on
    words, ticks and filtered index lists.
  \<^item> \<open>CRC8\<close>: \<open>owb_crc8_byte\<close> and \<open>owb_crc8_bytes\<close>, the Dallas/Maxim CRC-8 (reflected
    polynomial \<open>0x8C\<close>), bitwise. Lemmas: a message followed by its CRC checks to zero;
    the check of the last byte is equivalent to the sender's relation.
  \<^item> \<open>Rom\<close>: bits of a ROM code in wire order (\<open>rom_bit\<close>, \<open>rom_set_bit\<close>, as
    \<open>id_bit_number\<close>/\<open>rom_byte_mask\<close> of the search), the search order \<open>rom_lt\<close>
    (lexicographic on wire bits, a strict total order on codes), its sorting function
    \<open>rom_sort\<close>, and that a code with a valid CRC is determined by its first 56 bits.
  \<^item> \<open>OwbSearch\<close>: the bus (\<open>owb\<close>: GPIO, CRC flag, the devices on the wire), the search
    state (\<open>OneWireBus_SearchState\<close>), the AN187 search loop \<open>search_bits\<close> over the 64 id
    bits with the open-drain line as the AND of the participating devices' bits,
    \<open>owb_search\<close> (\<open>_search\<close>), \<open>owb_search_first\<close>, \<open>owb_search_next\<close> and
    \<open>owb_verify_rom\<close>. Lemmas: the walk follows the least device above the previous code
    (\<open>search_bits_follow\<close>); first returns the least code, next the successor in
    \<open>rom_lt\<close>, and the search ends after the greatest; \<open>owb_verify_rom\<close> answers exactly
    for the codes on the bus; with CRC checking on, a code returned as found has a valid
    CRC-8 whatever is on the bus.
  \<^item> \<open>DS18B20\<close>: resolutions, conversion times, the configuration byte, decoding of the
    temperature register (\<open>16 word\<close>, \<open>sint\<close>, 1/16 degree), the handle
    \<open>ds18b20_info\<close> with \<open>ds18b20_malloc\<close>, \<open>ds18b20_init\<close>, \<open>ds18b20_init_solo\<close>,
    \<open>ds18b20_use_crc\<close>, \<open>ds18b20_set_resolution\<close>, addressing (MATCH ROM or SKIP ROM),
    \<open>ds18b20_convert_all\<close>, the wait in ticks (the worst-case conversion time rounded up
    to whole ticks) and \<open>ds18b20_read_temp\<close> with its CRC check
    and the sentinel \<open>DS18B20_INVALID_READING = -300\<close>.
  \<^item> \<open>RomString\<close>: \<open>owb_string_from_rom_code\<close>, the text printed for a ROM code
    (two lower-case hex digits per byte, most significant byte first, as the comment of
    line 85 shows), and its inverse \<open>rom_of_string\<close>; the round trip from code to text
    and back, and the length of the text (16 characters for a code).
  \<^item> \<open>Examples\<close>: ROM codes of real sensors (the three in the source's comments, nine
    synthetic ones with valid CRCs) for the witnesses.
  \<^item> \<open>AppMain\<close>: \<open>app_main\<close> itself. Configuration constants (lines 39 to 42); the
    enumeration loop of lines 73 to 81 (\<open>app_find_loop\<close>, \<open>app_find_devices\<close>), whose
    store past the array is the error \<open>Device_array_overflow\<close>, and the same loop
    without the array, the unbounded walk \<open>app_search_all\<close>/\<open>app_enumerate\<close> that
    collects every code the search returns; the known device
    (\<open>known_device\<close>, \<open>app_check_known\<close>, lines 90 to 100); handle creation
    (\<open>app_init_loop\<close>, lines 114 to 133) and the clean-up loop (\<open>app_free_loop\<close>,
    lines 190 to 196, run when no device was found); the program state \<open>app_state\<close> (the locals that
    live across the loop, the bus, the devices on the wire, time in ticks and the events
    emitted); one iteration of \<open>while (1)\<close> as \<open>app_sample\<close> (read loop
    \<open>app_read_temps\<close>, error-count and print loop \<open>app_count_loop\<close>, periodic delay
    \<open>app_period_delay\<close> on 32-bit ticks); the setup \<open>app_setup\<close>; and the program as the
    step relation \<open>app_step\<close> with \<open>app_reachable\<close> its runs from \<open>app_boot\<close>. Claims
    C1 to C5: the enumeration stores the codes sorted in search order, overflows on a
    ninth device, the sample period across tick wrap-around, the oversleep when the
    period ends between the two tick readings, and the error accounting of one sample;
    C22 and C23: the unbounded walk terminates on a bus of valid sensors with every code
    once, and the loop of the source is that walk cut at \<open>MAX_DEVICES\<close>;
    C25: the clean-up loop frees every handle the creation loop allocated.
  \<^item> \<open>AppRun\<close>: the invariant \<open>app_inv\<close> of reachable states (array lengths, at most
    \<open>MAX_DEVICES\<close> devices, the handles of the setup, counters bounded by the sample
    count, a device on the bus while sampling), preserved by the setup and by every
    iteration, and the claims about runs: the handles (C6), the counters (C7, C18), no
    undefined behaviour on at most \<open>MAX_DEVICES\<close> valid sensors (C8), a loop that never
    stops (C9), the program returning when no sensor answers (C10), the bus trace of one
    iteration (C11), addressing (C12), the setup's output with the known-device report
    (C13), the sentinel that a valid scratchpad can encode (C14), detection of
    a corrupted byte (C16), the printed readings (C17), monotone counters (C18), no
    sample before the conversion wait (C20), the oversleep in a reachable run with
    26 ticks of environment (C21), and that every stored ROM code is well formed
    whatever is on the wire (C24).
  \<^item> \<open>AppLoop\<close>: \<open>while (1)\<close> as the function \<open>app_run\<close>, iterations of
    \<open>app_sample\<close> under a list of environments. Over a run the error
    counters are the totals of CRC failures (C26), the elapsed time is the sum of the
    iterations' periods, so ten samples take ten seconds (C27), the sample headers
    are numbered consecutively (C28), and a run of \<open>k\<close> iterations never takes less than
    \<open>k\<close> periods (C33).
  \<^item> \<open>Console\<close>: the text of the \<open>printf\<close> calls of lines 51, 67, 77, 83, 100, 124, 171
    and 179 (\<open>line_rom\<close>, \<open>line_found\<close>, \<open>line_present\<close>, \<open>line_header\<close>,
    \<open>line_reading\<close>, rendered by \<open>event_line\<close> and \<open>console\<close>), with \<open>%d\<close> as
    \<open>show_nat\<close> and \<open>%.1f\<close> as \<open>format_1dp\<close> (sign, then the magnitude rounded to one
    decimal, ties to even, as the C library does in the default rounding mode; the
    claims below hold for either tie rule). A reading line parses back to its index and
    count exactly and its temperature within 0.05 degrees (C30); one iteration prints the
    specification's block, a header and one line per device in order (C31); the setup
    prints the fixed lines, the codes found, their number, the known device and, with
    one sensor, the line of line 124 (C32).
  \<^item> \<open>SamplerSpec\<close>: the specification's Sampler (sections 4.5 and 7) as an abstract
    machine \<open>sampler_step\<close> over phases \<open>Init\<close>, \<open>Enumerating\<close>, \<open>Configured\<close>,
    \<open>Sampling_ph\<close>, \<open>Stopped\<close>, with the enumerated devices, error counters and
    sample count, and none of the program's arrays, search or time. Its transitions are
    labelled (\<open>sampler_action\<close>); a sample is labelled with the invalid flag of each
    device's reading, and adds one to exactly the flagged counters.
  \<^item> This theory: the properties that need the search, the setup and the loop together:
    the device table of every sampling state is the sorted set of sensors on the wire
    (C15), solo mode is used exactly when one sensor is on the bus (C19), and, through the
    abstraction \<open>app_abs\<close>, the program refines the abstract Sampler, every iteration of the
    loop being the abstract sample labelled with exactly the devices whose reading is the
    sentinel (C29).

  \<^bold>\<open>Time, bounds and termination.\<close> Time is an unbounded count of ticks
  (\<open>clock\<close>, a natural number); \<open>xTaskGetTickCount()\<close> is its value modulo \<open>2^32\<close> as a
  \<open>tick\<close> word, so the arithmetic of lines 183 to 185 is done on words and wraps as in
  the code. What the environment decides in one iteration (the bytes each device
  answers, the ticks spent reading and printing, the ticks that pass between the two
  tick readings) is the record \<open>sample_env\<close>; every claim about a sample holds for
  every environment that meets its stated hypotheses. The loops of the program and the
  libraries are bounded where the code bounds them: the search visits id bits 1 to 64
  (measure \<open>65 - n\<close>), the enumeration at most \<open>MAX_DEVICES + 1\<close> iterations before
  returning or overflowing (measure \<open>MAX_DEVICES - n\<close>), the handle loop
  \<open>num_devices\<close> iterations, so no fuel is needed. The walk \<open>while (found)\<close> without the
  array bound is a \<open>partial_function (option)\<close>: \<open>None\<close> is a walk that never ends,
  which the model does not exclude on an arbitrary bus; C22 proves that it ends on a
  bus of sensors with valid codes. \<open>while (1)\<close> is unbounded; it is the step relation,
  and C9 shows that it always takes another step; finite prefixes of it from a
  reachable state are \<open>app_run\<close> over a list of environments. The settle delay
  \<open>2000.0 / portTICK_PERIOD_MS\<close> of line 53 is a double truncated to \<open>TickType_t\<close>;
  the model takes the integer quotient, which is the same value for every positive
  tick period. The counters \<open>sample_count\<close> and
  \<open>crc_errors\<close> are \<open>int\<close> in the code and natural numbers here: they would overflow
  after \<open>2^31\<close> samples, about 68 years at one sample a second. Temperatures are
  \<open>float\<close> in the code and reals here; every value decoded is a multiple of 1/16 of
  magnitude at most 2048 (a signed 16-bit register over 16), exact in a float.

  \<^bold>\<open>Not modelled.\<close> The RMT line driver (reset and slot timing; the model works on
  whole bytes and on the logical value of each search slot), presence-pulse failures and
  bus errors (the model's bus always answers; a device that answers short is padded
  with \<open>0xFF\<close>), the bus traffic of the setup (the search slots and the scratchpad
  write of \<open>ds18b20_set_resolution\<close> change no modelled state and are not recorded as
  events; the trace of the sampling loop is), \<open>fflush\<close> and the buffering of the console (its text is modelled as the
  concatenation of the lines printed), heap exhaustion in
  \<open>ds18b20_malloc\<close> (the code does not check the result, and the specification does
  not say what the library does with a \<open>NULL\<close> handle; the model treats a \<open>NULL\<close>
  handle in the loop as undefined behaviour and allocation as always succeeding), the
  scheduling of other FreeRTOS tasks (only its effect on time is modelled, as the
  environment's ticks), the \<open>USE_STATIC\<close> branch (not compiled), the commented-out
  loop of lines 135 to 145, and the disabled code under \<open>#if 0\<close>.
\<close>

subsection \<open>The abstraction to the specification's Sampler\<close>

text \<open>
  A program state seen as a state of the abstract Sampler of \<open>SamplerSpec\<close>: its phase
  (\<open>Returned\<close>, the end of the setup with no device, is the configured idle state;
  undefined behaviour is the stopped state), the devices in use, their counters and the
  sample count.
\<close>

definition app_abs :: "app_state \<Rightarrow> sampler" where
  "app_abs s =
     \<lparr>sp_phase = (case phase s of Start \<Rightarrow> Init | Sampling \<Rightarrow> Sampling_ph
                   | Returned \<Rightarrow> Configured | Undefined e \<Rightarrow> Stopped),
      sp_roms = take (num_devices s) (device_rom_codes s),
      sp_errors = take (num_devices s) (crc_errors s), sp_count = sample_count s\<rparr>"

subsection \<open>Properties across the components\<close>

text \<open>
  The search of \<open>OwbSearch\<close>, the enumeration loop and the setup of \<open>AppMain\<close> and the
  sampling loop together: the setup fixes the device table once, and no iteration of the
  loop changes it.
\<close>

lemma app_step_table:
  assumes "app_step s s'" and "phase s' = Sampling" and "bus_wf (wire_devices s)"
    and "phase s = Sampling \<longrightarrow> device_rom_codes s = rom_sort (wire_devices s) @
           replicate (MAX_DEVICES - num_devices s) (replicate 8 0) \<and>
         num_devices s = length (rom_sort (wire_devices s))"
  shows "device_rom_codes s' = rom_sort (wire_devices s') @
           replicate (MAX_DEVICES - num_devices s') (replicate 8 0) \<and>
         num_devices s' = length (rom_sort (wire_devices s'))"
  using assms(1)
proof cases
  case do_setup
  let ?bus = "owb_use_crc (owb_rmt_initialize app_gpio_num (wire_devices s)) True"
  have wf: "bus_wf (bus_devices ?bus)" using assms(3) by simp
  from do_setup(2) show ?thesis
  proof (rule app_setup_Inr)
    fix roms n
    assume f: "app_find_devices ?bus = Inr (roms, n)" and w: "wire_devices s' = wire_devices s"
      and r: "device_rom_codes s' = roms" and n: "num_devices s' = n"
    from f app_find_devices_eq [OF wf] w r n show ?thesis by (auto split: if_splits)
  qed
next
  case (do_sample env)
  then show ?thesis using assms(2,4) by (simp add: app_sample_fields)
qed (use assms(2) in simp_all)

lemma app_reachable_table:
  assumes "app_reachable s" and "phase s = Sampling" and "bus_wf (wire_devices s)"
  shows "device_rom_codes s = rom_sort (wire_devices s) @
           replicate (MAX_DEVICES - num_devices s) (replicate 8 0) \<and>
         num_devices s = length (rom_sort (wire_devices s))"
  using assms
proof (induction rule: app_reachable.induct)
  case (boot devs t0)
  then show ?case by (simp add: app_boot_def)
next
  case (step s0 s1)
  have w: "wire_devices s1 = wire_devices s0" by (rule app_step_wire [OF step.hyps(2)])
  with step.prems have wf: "bus_wf (wire_devices s0)" by simp
  with step.IH have "phase s0 = Sampling \<longrightarrow> device_rom_codes s0 = rom_sort (wire_devices s0) @
         replicate (MAX_DEVICES - num_devices s0) (replicate 8 0) \<and>
       num_devices s0 = length (rom_sort (wire_devices s0))" by blast
  with step.hyps(2) step.prems(1) wf show ?case by (rule app_step_table)
qed

lemma distinct_rom_sort_wf: "bus_wf D \<Longrightarrow> distinct (rom_sort D)"
proof -
  assume "bus_wf D"
  then have "\<forall>d\<in>set D. length d = 8" by (auto dest: bus_wf_member)
  then show "distinct (rom_sort D)" using sorted_rom_sort by (blast intro: sorted_wrt_rom_lt_distinct)
qed

text \<open>
  C15. On a bus of sensors with valid ROM codes, in every reachable state of the sampling
  loop the device table holds exactly the sensors on the wire, each once, sorted in the
  order of the 1-Wire search, followed by zero codes, and \<open>num_devices\<close> is their number:
  every sensor on the bus is sampled, and only those.
\<close>

theorem app_reachable_device_table:
  assumes "app_reachable s" and "phase s = Sampling" and "bus_wf (wire_devices s)"
  shows "device_rom_codes s = rom_sort (wire_devices s) @
           replicate (MAX_DEVICES - num_devices s) (replicate 8 0) \<and>
         num_devices s = length (rom_sort (wire_devices s)) \<and>
         set (take (num_devices s) (device_rom_codes s)) = set (wire_devices s) \<and>
         distinct (take (num_devices s) (device_rom_codes s))"
  using app_reachable_table [OF assms] distinct_rom_sort_wf [OF assms(3)] by simp

theorem app_reachable_device_table_witness:
  "\<exists>s. app_reachable s \<and> phase s = Sampling \<and> wire_devices s = [rom_pink] \<and>
     take 1 (device_rom_codes s) = [rom_pink] \<and> num_devices s = 1"
proof -
  obtain s where s: "app_reachable s" "phase s = Sampling" "num_devices s = 1"
    "wire_devices s = [rom_pink]"
    using app_reachable_one_sensor by blast
  have wf: "bus_wf (wire_devices s)"
    using s(4) by (simp add: rom_pink_def bus_wf_def rom_crc_ok_def crc_simps)
  have "take 1 (device_rom_codes s) = [rom_pink]"
    using app_reachable_device_table [OF s(1,2) wf] s by (simp add: rom_sort_def)
  with s show ?thesis by blast
qed

text \<open>
  C19. \<open>ds18b20_init_solo\<close> is only valid when exactly one device is on the bus, and the
  specification leaves that to the caller. The program discharges it: on a bus of
  sensors with valid ROM codes, a handle of the sampling loop is in solo (SKIP ROM) mode
  exactly when one sensor is on the bus.
\<close>

theorem app_solo_iff_single_sensor:
  assumes "app_reachable s" and "phase s = Sampling" and "bus_wf (wire_devices s)"
    and "j < num_devices s"
  shows "ds_solo (the (devices s ! j)) \<longleftrightarrow> card (set (wire_devices s)) = 1"
proof -
  have h: "devices s ! j = Some (app_init_handle (device_rom_codes s) (num_devices s) j)"
    by (rule app_inv_sampling_handle [OF app_reachable_app_inv [OF assms(1)] assms(2,4)])
  have "num_devices s = length (rom_sort (wire_devices s))"
    using app_reachable_table [OF assms(1-3)] by simp
  also have "\<dots> = card (set (wire_devices s))"
    using distinct_card [OF distinct_rom_sort_wf [OF assms(3)]] by simp
  finally show ?thesis using h by (simp add: app_init_handle_eq app_handle_def)
qed

theorem app_solo_iff_single_sensor_witness:
  "\<exists>s. app_reachable s \<and> phase s = Sampling \<and> wire_devices s = [rom_pink] \<and>
     ds_solo (the (devices s ! 0))"
proof -
  obtain s where s: "app_reachable s" "phase s = Sampling" "num_devices s = 1"
    "wire_devices s = [rom_pink]"
    using app_reachable_one_sensor by blast
  have wf: "bus_wf (wire_devices s)"
    using s(4) by (simp add: rom_pink_def bus_wf_def rom_crc_ok_def crc_simps)
  have "0 < num_devices s" using s(3) by simp
  from app_solo_iff_single_sensor [OF s(1,2) wf this] s show ?thesis by auto
qed

subsection \<open>Refinement of the Sampler\<close>

lemma app_abs_setup:
  assumes "app_setup (app_boot devs t0) = Inr s'" and "bus_wf devs"
  shows "sampler_reach MAX_DEVICES devs sampler_init (app_abs s')"
proof -
  let ?bus = "owb_use_crc (owb_rmt_initialize app_gpio_num devs) True"
  let ?n = "length (rom_sort devs)"
  have wf: "bus_wf (bus_devices ?bus)" using assms(2) by simp
  from assms(1) obtain roms n where f: "app_find_devices ?bus = Inr (roms, n)"
    and ph: "phase s' = (if 0 < n then Sampling else Returned)"
    and r: "device_rom_codes s' = roms" and nn: "num_devices s' = n"
    and e: "crc_errors s' = replicate MAX_DEVICES 0" and c: "sample_count s' = 0"
    by (rule app_setup_Inr) (simp_all add: app_boot_def)
  have le: "?n \<le> MAX_DEVICES" and roms: "roms = rom_sort devs @ replicate (MAX_DEVICES - ?n) (replicate 8 0)"
    and n: "n = ?n"
    using f app_find_devices_eq [OF wf] by (auto split: if_splits)
  have filt: "filter (\<lambda>r. rom_crc_ok r \<and> r ! 0 \<noteq> 0) devs = devs"
    using assms(2) by (simp add: bus_wf_def list_all_iff)
  let ?a1 = "sampler_init\<lparr>sp_phase := Enumerating\<rparr>"
  let ?a2 = "?a1\<lparr>sp_phase := Configured, sp_roms := rom_sort devs,
              sp_errors := replicate ?n 0, sp_count := 0\<rparr>"
  have s1: "sampler_step MAX_DEVICES devs sampler_init Act_start ?a1"
    by (rule sampler_step.start) (simp add: sampler_init_def)
  have s2: "sampler_step MAX_DEVICES devs ?a1 (Act_enumerate (rom_sort devs)) ?a2"
    by (rule sampler_step.enumerate) (simp_all add: filt le distinct_rom_sort_wf [OF assms(2)])
  have r12: "sampler_reach MAX_DEVICES devs sampler_init ?a2"
    by (rule sampler_reach_trans [OF sampler_reach_step [OF s1] sampler_reach_step [OF s2]])
  have abs2: "app_abs s' = (if 0 < ?n then ?a2\<lparr>sp_phase := Sampling_ph\<rparr> else ?a2)"
    using ph r nn e c roms n le by (simp add: app_abs_def sampler_init_def)
  show ?thesis
  proof (cases "0 < ?n")
    case True
    then have "sampler_step MAX_DEVICES devs ?a2 Act_begin (?a2\<lparr>sp_phase := Sampling_ph\<rparr>)"
      by (intro sampler_step.begin_sampling) auto
    with r12 abs2 True show ?thesis by (simp add: sampler_reach_trans sampler_reach_step)
  next
    case False
    with r12 abs2 show ?thesis by simp
  qed
qed

lemma app_abs_sample:
  assumes "app_sample s env = Inr s'" and "app_inv s" and "phase s = Sampling"
  shows "sampler_step MAX_DEVICES wire (app_abs s)
    (Act_sample (map (\<lambda>j. snd (ds18b20_read_temp (the (devices s ! j)) (env_scratchpad env j)) =
                          DS18B20_INVALID_READING) [0..<num_devices s]))
    (app_abs s')"
proof -
  let ?n = "num_devices s"
  let ?bad = "map (\<lambda>j. snd (ds18b20_read_temp (the (devices s ! j)) (env_scratchpad env j)) =
                        DS18B20_INVALID_READING) [0..<?n]"
  have len: "length (crc_errors s) = MAX_DEVICES" and le: "?n \<le> MAX_DEVICES"
    and lc: "length (device_rom_codes s) = MAX_DEVICES"
    using assms(2) by (simp_all add: app_inv_def)
  note E = app_sample_errors [OF assms(1) len le]
  note F = app_sample_fields [OF assms(1)]
  have "take ?n (crc_errors s') = sampler_count_errors (take ?n (crc_errors s)) ?bad"
  proof (rule nth_equalityI)
    show "length (take ?n (crc_errors s')) = length (sampler_count_errors (take ?n (crc_errors s)) ?bad)"
      using E len le by simp
    fix j assume "j < length (take ?n (crc_errors s'))"
    then have j: "j < ?n" and jm: "j < MAX_DEVICES" using E le by auto
    then show "take ?n (crc_errors s') ! j = sampler_count_errors (take ?n (crc_errors s)) ?bad ! j"
      using E len le by (simp add: sampler_count_errors_nth)
  qed
  moreover have "sampler_step MAX_DEVICES wire (app_abs s) (Act_sample ?bad)
      ((app_abs s)\<lparr>sp_errors := sampler_count_errors (sp_errors (app_abs s)) ?bad,
                   sp_count := Suc (sp_count (app_abs s))\<rparr>)"
    by (rule sampler_step.sample) (use assms(3) len le lc in \<open>simp_all add: app_abs_def\<close>)
  ultimately show ?thesis using F assms(3) by (simp add: app_abs_def)
qed

lemma app_step_refines:
  assumes "app_reachable s" and "app_step s s'" and "bus_wf (wire_devices s)"
    and "length (rom_sort (wire_devices s)) \<le> MAX_DEVICES"
  shows "sampler_reach MAX_DEVICES (wire_devices s) (app_abs s) (app_abs s')"
  using assms(2)
proof cases
  case do_setup
  obtain devs t0 where b: "s = app_boot devs t0" using app_reachable_Start [OF assms(1) do_setup(1)] by blast
  have "app_abs s = sampler_init" by (simp add: b app_abs_def app_boot_def sampler_init_def)
  moreover have "wire_devices s = devs" by (simp add: b app_boot_def)
  ultimately show ?thesis using app_abs_setup [of devs t0 s'] do_setup(2) assms(3) b by simp
next
  case (setup_fault e)
  then show ?thesis using app_setup_defined [OF assms(3,4)] by simp
next
  case (do_sample env)
  have "app_inv s" by (rule app_reachable_app_inv [OF assms(1)])
  from app_abs_sample [OF do_sample(2) this do_sample(1)] show ?thesis by (rule sampler_reach_step)
next
  case (sample_fault env e)
  then show ?thesis using app_sample_defined [OF app_reachable_app_inv [OF assms(1)], of env] by auto
qed

lemma app_reach_sampler:
  assumes "app_reachable s" and "bus_wf (wire_devices s)"
    and "length (rom_sort (wire_devices s)) \<le> MAX_DEVICES"
  shows "sampler_reach MAX_DEVICES (wire_devices s) sampler_init (app_abs s)"
  using assms
proof (induction rule: app_reachable.induct)
  case (boot devs t0)
  then show ?case by (simp add: app_abs_def app_boot_def sampler_init_def)
next
  case (step s s')
  have w: "wire_devices s' = wire_devices s" by (rule app_step_wire [OF step.hyps(2)])
  with step.IH step.prems have "sampler_reach MAX_DEVICES (wire_devices s) sampler_init (app_abs s)"
    by simp
  moreover have "sampler_reach MAX_DEVICES (wire_devices s) (app_abs s) (app_abs s')"
    using app_step_refines [OF step.hyps step.prems [unfolded w]] .
  ultimately show ?case using w by (simp add: sampler_reach_trans)
qed

text \<open>
  C29. The program refines the specification's Sampler: on a bus of at most
  \<open>MAX_DEVICES\<close> sensors with valid ROM codes, the abstraction of every reachable state
  (its phase, the devices in use, their error counters, the sample count) is a state the
  abstract Sampler reaches from its initial state; and every iteration of the sampling
  loop from it is the abstract sample whose invalid flags are, device by device, whether
  this iteration's reading of that device is the sentinel: the counter of exactly those
  devices goes up by one, and the sample count by one.
\<close>

theorem app_refines_sampler:
  assumes "app_reachable s" and "bus_wf (wire_devices s)"
    and "length (rom_sort (wire_devices s)) \<le> MAX_DEVICES"
  shows "sampler_reach MAX_DEVICES (wire_devices s) sampler_init (app_abs s) \<and>
    (\<forall>env s'. phase s = Sampling \<longrightarrow> app_sample s env = Inr s' \<longrightarrow>
       sampler_step MAX_DEVICES (wire_devices s) (app_abs s)
         (Act_sample (map (\<lambda>j. snd (ds18b20_read_temp (the (devices s ! j)) (env_scratchpad env j)) =
                                DS18B20_INVALID_READING) [0..<num_devices s]))
         (app_abs s'))"
  using app_reach_sampler [OF assms] app_abs_sample [OF _ app_reachable_app_inv [OF assms(1)]]
  by blast

theorem app_refines_sampler_witness:
  "\<exists>s s'. app_reachable s \<and> bus_wf (wire_devices s) \<and>
     length (rom_sort (wire_devices s)) \<le> MAX_DEVICES \<and> phase s = Sampling \<and>
     app_sample s (example_env (\<lambda>_. scratchpad_85) 5 0) = Inr s' \<and>
     sampler_reach MAX_DEVICES (wire_devices s) sampler_init (app_abs s) \<and>
     sampler_step MAX_DEVICES (wire_devices s) (app_abs s) (Act_sample [False]) (app_abs s')"
proof -
  obtain s where s: "app_reachable s" "phase s = Sampling" "wire_devices s = [rom_pink]"
    "num_devices s = 1"
    using app_reachable_one_sensor by blast
  have wf: "bus_wf (wire_devices s)"
    using s(3) by (simp add: rom_pink_def bus_wf_def rom_crc_ok_def crc_simps)
  have le: "length (rom_sort (wire_devices s)) \<le> MAX_DEVICES"
    using s(3) by (simp add: rom_sort_def MAX_DEVICES_def)
  let ?env = "example_env (\<lambda>_. scratchpad_85) 5 0"
  obtain s' where s': "app_sample s ?env = Inr s'"
    using app_sample_defined [OF app_reachable_app_inv [OF s(1)] s(2)] by blast
  have d0: "devices s ! 0 = Some (app_handle (device_rom_codes s) 1 0)"
    using app_inv_sampling_handle [OF app_reachable_app_inv [OF s(1)] s(2)] s(4)
    by (simp add: app_init_handle_eq)
  note R = app_refines_sampler [OF s(1) wf le]
  let ?bad = "map (\<lambda>j. snd (ds18b20_read_temp (the (devices s ! j)) (env_scratchpad ?env j)) =
                 DS18B20_INVALID_READING) [0..<num_devices s]"
  have st: "sampler_step MAX_DEVICES (wire_devices s) (app_abs s) (Act_sample ?bad) (app_abs s')"
    using R s(2) s' by blast
  have fl: "?bad = [False]"
    using s(4) d0 by (simp add: example_env_def read_temp_85 DS18B20_INVALID_READING_def)
  from st have "sampler_step MAX_DEVICES (wire_devices s) (app_abs s) (Act_sample [False]) (app_abs s')"
    by (simp only: fl)
  with R s s' wf le show ?thesis by blast
qed

end
